theory Spec2Isabelle
  imports Main "HOL-Library.Multiset" "HOL-Library.Product_Lexorder"
begin

section \<open>Utilities (utility.js)\<close>

text \<open>
  Array positions and lengths are natural numbers; identifiers, scores and the values
  held in an \<^verbatim>\<open>Int32Array\<close> are integers. The loop of \<^verbatim>\<open>searchBinary\<close> runs on
  integers, because \<^verbatim>\<open>maxIndex\<close> starts at \<^verbatim>\<open>length - 1\<close> and may reach \<^verbatim>\<open>-1\<close>.

  \<^verbatim>\<open>(minIndex + maxIndex) >> 1\<close> converts the sum to a signed 32-bit integer and shifts
  it arithmetically: \<open>toInt32\<close> is the conversion, \<open>shiftRight1\<close> the operator with its
  right operand 1. The result is the floor of the half only while the sum is below
  \<open>2^31\<close>; above that the probe may fall outside \<open>[minIndex, maxIndex]\<close> and the loop
  need not end (with \<^verbatim>\<open>length\<close> \<open>2^32\<close> and a comparator that is positive at \<open>-1\<close> it
  probes \<open>-1\<close> for ever). The loop is therefore a partial function: \<open>None\<close> is a loop
  that does not return.

  The variables \<^verbatim>\<open>currentIndex\<close> and \<^verbatim>\<open>result\<close> start out undefined: the loop state
  carries them as an option, \<open>None\<close> while no probe has been made.
\<close>

definition toInt32 :: "int \<Rightarrow> int" where
  "toInt32 x = (let m = x mod 4294967296 in if m < 2147483648 then m else m - 4294967296)"

definition shiftRight1 :: "int \<Rightarrow> int" where
  \<comment> \<open>\<^verbatim>\<open>x >> 1\<close>\<close>
  "shiftRight1 x = toInt32 x div 2"

partial_function (option) searchLoop ::
  "(int \<Rightarrow> int) \<Rightarrow> int \<Rightarrow> int \<Rightarrow> (int \<times> int) option \<Rightarrow> (int \<times> int) option option" where
  [code]: "searchLoop fn minIndex maxIndex probe =
     (if minIndex \<le> maxIndex then
        (let currentIndex = shiftRight1 (minIndex + maxIndex);
             result = fn currentIndex
         in if result > 0 then searchLoop fn (currentIndex + 1) maxIndex (Some (currentIndex, result))
            else if result < 0 then searchLoop fn minIndex (currentIndex - 1) (Some (currentIndex, result))
            else Some (Some (currentIndex, result)))
      else Some probe)"

text \<open>
  \<^verbatim>\<open>searchBinary(length, fn)\<close>. The outer option is whether the call returns; the value
  returned is \<open>None\<close> for JavaScript's \<^verbatim>\<open>undefined\<close>, which is what comes back when the
  loop never ran (\<^verbatim>\<open>undefined > 0\<close> is false, so \<^verbatim>\<open>currentIndex\<close> is returned as it is).
\<close>

definition searchBinary :: "int \<Rightarrow> (int \<Rightarrow> int) \<Rightarrow> int option option" where
  "searchBinary len fn =
     (case searchLoop fn 0 (len - 1) None of
        None \<Rightarrow> None
      | Some None \<Rightarrow> Some None
      | Some (Some (currentIndex, result)) \<Rightarrow>
          (if result > 0 then Some (Some (currentIndex + 1)) else Some (Some currentIndex)))"

text \<open>
  \<^verbatim>\<open>interleaveArrays(dest, src1, src2, fn)\<close>. A write to a typed array beyond its end is
  ignored, which is what \<open>list_update\<close> does. The inner \<^verbatim>\<open>while\<close> is \<open>interleaveInner\<close>,
  the outer \<^verbatim>\<open>for\<close> is \<open>interleaveOuter\<close>; the outer loop has no termination
  argument of its own for an arbitrary start state, so it is a partial function and its
  returning is proved.
\<close>

function interleaveInner ::
  "int list \<Rightarrow> int list \<Rightarrow> int list \<Rightarrow> (nat \<Rightarrow> nat \<Rightarrow> int) \<Rightarrow> nat \<Rightarrow> nat \<Rightarrow> nat \<Rightarrow> int list \<times> nat \<times> nat" where
  "interleaveInner dest src1 src2 fn i j k =
     (if k < length src2 \<and> (j = length src1 \<or> fn j k < 0)
      then interleaveInner (dest[i := src2 ! k]) src1 src2 fn (i + 1) j (k + 1)
      else (dest, i, k))"
  by pat_completeness auto
termination
  by (relation "measure (\<lambda>(dest, src1, src2, fn, i, j, k). length src2 - k)") auto

partial_function (option) interleaveOuter ::
  "int list \<Rightarrow> int list \<Rightarrow> int list \<Rightarrow> (nat \<Rightarrow> nat \<Rightarrow> int) \<Rightarrow> nat \<Rightarrow> nat \<Rightarrow> nat \<Rightarrow> int list option" where
  [code]: "interleaveOuter dest src1 src2 fn i j k =
     (if i < length src1 + length src2 then
        (case interleaveInner dest src1 src2 fn i j k of
           (dest', i', k') \<Rightarrow>
             if j < length src1
             then interleaveOuter (dest'[i' := src1 ! j]) src1 src2 fn (i' + 1) (j + 1) k'
             else interleaveOuter dest' src1 src2 fn i' j k')
      else Some dest)"

definition interleaveArrays ::
  "int list \<Rightarrow> int list \<Rightarrow> int list \<Rightarrow> (nat \<Rightarrow> nat \<Rightarrow> int) \<Rightarrow> int list option" where
  "interleaveArrays dest src1 src2 fn = interleaveOuter dest src1 src2 fn 0 0 0"

section \<open>Typed arrays and the side table\<close>

text \<open>
  An \<^verbatim>\<open>Int32Array\<close> is an \<open>int list\<close>. Scores are int32 by the documented contract of
  the constructor and of \<^verbatim>\<open>update\<close>, and identifiers are array positions, so a store
  keeps the value written. A read outside the array is \<^verbatim>\<open>undefined\<close> (\<open>None\<close>) and
  a write outside the array is ignored. \<^verbatim>\<open>TypedArray.set\<close> throws a RangeError when the
  source does not fit at the offset; \<^verbatim>\<open>subarray\<close> clamps its bounds.
\<close>

datatype error = RangeError | TypeError | JoinOverflow | NoReturn | LengthBound

definition thenE :: "'e + 'a \<Rightarrow> ('a \<Rightarrow> 'e + 'b) \<Rightarrow> 'e + 'b" where
  "thenE m f = (case m of Inl e \<Rightarrow> Inl e | Inr x \<Rightarrow> f x)"

definition ta_get :: "int list \<Rightarrow> int \<Rightarrow> int option" where
  "ta_get a i = (if 0 \<le> i \<and> i < int (length a) then Some (a ! nat i) else None)"

definition ta_put :: "int list \<Rightarrow> int \<Rightarrow> int \<Rightarrow> int list" where
  "ta_put a i v = (if 0 \<le> i \<and> i < int (length a) then a[nat i := v] else a)"

definition subarray :: "int list \<Rightarrow> nat \<Rightarrow> nat \<Rightarrow> int list" where
  "subarray a b e = take (e - b) (drop b a)"

definition ta_set :: "int list \<Rightarrow> int list \<Rightarrow> nat \<Rightarrow> error + int list" where
  "ta_set dest src off =
     (if length src + off > length dest then Inl RangeError
      else Inr (take off dest @ src @ drop (off + length src) dest))"

text \<open>
  The side table \<^verbatim>\<open>lookups\<close> is one flat array: \<^verbatim>\<open>lookups[index * 3]\<close> is the score of
  \<^verbatim>\<open>index\<close>, \<^verbatim>\<open>lookups[index * 3 + 1]\<close> the id of its partition (negative when it is
  in none) and \<^verbatim>\<open>lookups[index * 3 + 2]\<close> its slot in a uniform partition. The reads
  inside the partitions are of identifiers the partition holds, which are inside the table.
\<close>

definition scoreAt :: "int list \<Rightarrow> int \<Rightarrow> int" where
  "scoreAt lookups index = lookups ! nat (index * 3)"

definition compareTo :: "int list \<Rightarrow> int \<Rightarrow> int \<Rightarrow> int \<Rightarrow> int" where
  \<comment> \<open>\<^verbatim>\<open>score - lookups[other * 3] || index - other\<close>\<close>
  "compareTo lookups score index other =
     (if score - scoreAt lookups other \<noteq> 0 then score - scoreAt lookups other else index - other)"

text \<open>
  The partitions and the heap call \<^verbatim>\<open>searchBinary\<close> with the length of a partition or
  the number of partitions, and a comparator that reads the array at the probed position.
  These calls are modelled for lengths up to \<open>2^30\<close>, where no sum of two positions
  reaches \<open>2^31\<close>: every probe is then a position of the array, which is what the
  comparators of the callers are defined on. A longer array ends the modelled run with
  the error \<open>LengthBound\<close>; every statement that an operation succeeds shows that this
  error does not occur.
\<close>

definition searchIndex :: "nat \<Rightarrow> (nat \<Rightarrow> int) \<Rightarrow> error + nat option" where
  "searchIndex len fn =
     (if len \<le> 1073741824 then
        (case searchBinary (int len) (\<lambda>i. fn (nat i)) of
           None \<Rightarrow> Inl NoReturn
         | Some None \<Rightarrow> Inr None
         | Some (Some r) \<Rightarrow> Inr (Some (nat r)))
      else Inl LengthBound)"

section \<open>Partition (sorted) and UniformPartition\<close>

record Partition =
  uniform :: bool
  pid :: int
  indices :: "int list"
  plen :: nat
  pmin :: int

text \<open>
  Both classes carry \<^verbatim>\<open>id\<close>, \<^verbatim>\<open>indices\<close>, \<^verbatim>\<open>length\<close> and \<^verbatim>\<open>min\<close> (here \<open>pid\<close>,
  \<open>indices\<close>, \<open>plen\<close>, \<open>pmin\<close>); \<^verbatim>\<open>uniform\<close> is true on a UniformPartition only. The
  shared \<^verbatim>\<open>lookups\<close> array is passed in and returned. The getter \<^verbatim>\<open>max\<close> of a sorted
  partition reads the score of its last member, and is only read on a partition that has one.
\<close>

definition pmax :: "int list \<Rightarrow> Partition \<Rightarrow> int" where
  "pmax lookups p =
     (if uniform p then pmin p else scoreAt lookups (indices p ! (plen p - 1)))"

definition new_Partition :: "int \<Rightarrow> int list \<Rightarrow> int list \<Rightarrow> nat \<Rightarrow> Partition \<times> int list" where
  "new_Partition ident lookups inds len =
     (\<lparr>uniform = False, pid = ident, indices = inds, plen = len, pmin = scoreAt lookups (inds ! 0)\<rparr>,
      foldl (\<lambda>L x. ta_put (ta_put L (x * 3 + 1) ident) (x * 3 + 2) (- 1)) lookups (take len inds))"

definition new_UniformPartition :: "int \<Rightarrow> int list \<Rightarrow> int list \<Rightarrow> nat \<Rightarrow> Partition \<times> int list" where
  "new_UniformPartition ident lookups inds len =
     (\<lparr>uniform = True, pid = ident, indices = inds, plen = len, pmin = scoreAt lookups (inds ! 0)\<rparr>,
      foldl (\<lambda>L i. ta_put (ta_put L (inds ! i * 3 + 1) ident) (inds ! i * 3 + 2) (int i))
        lookups [0 ..< min len (length inds)])"

text \<open>
  \<^verbatim>\<open>Partition.reindex(removeIndex, insertIndex, index)\<close>; \<^verbatim>\<open>null\<close> and \<^verbatim>\<open>undefined\<close>
  are both \<open>None\<close> (\<^verbatim>\<open>null != undefined\<close> is false).
\<close>

definition Partition_reindex :: "Partition \<Rightarrow> nat option \<Rightarrow> nat option \<Rightarrow> int \<Rightarrow> error + Partition" where
  "Partition_reindex p removeIndex insertIndex index =
     (if removeIndex \<noteq> insertIndex then
        (case (removeIndex, insertIndex) of
           (None, Some ins) \<Rightarrow>
             thenE (ta_set (indices p) (subarray (indices p) ins (plen p)) (ins + 1))
               (\<lambda>a. Inr (p\<lparr>indices := a[ins := index]\<rparr>))
         | (Some rem, None) \<Rightarrow>
             thenE (ta_set (indices p) (subarray (indices p) (rem + 1) (plen p)) rem)
               (\<lambda>a. Inr (p\<lparr>indices := a\<rparr>))
         | (Some rem, Some ins) \<Rightarrow>
             if rem < ins then
               thenE (ta_set (indices p) (subarray (indices p) (rem + 1) (ins + 1)) rem)
                 (\<lambda>a. Inr (p\<lparr>indices := a[ins := index]\<rparr>))
             else if rem > ins then
               thenE (ta_set (indices p) (subarray (indices p) ins rem) (ins + 1))
                 (\<lambda>a. Inr (p\<lparr>indices := a[ins := index]\<rparr>))
             else Inr p
         | (None, None) \<Rightarrow> Inr p)
      else Inr p)"

definition Partition_insert ::
  "int list \<Rightarrow> Partition \<Rightarrow> int \<Rightarrow> int \<Rightarrow> nat option \<Rightarrow> error + Partition \<times> int list" where
  "Partition_insert lookups p index score hint =
     (let lookups' = ta_put lookups (index * 3 + 1) (pid p)
      in thenE (case hint of
                  Some k \<Rightarrow> Inr (Some k)
                | None \<Rightarrow> searchIndex (plen p) (\<lambda>i. compareTo lookups' score index (indices p ! i)))
           (\<lambda>partitionIndex.
              thenE (Partition_reindex p None partitionIndex index)
                (\<lambda>p'. Inr ((if partitionIndex = Some 0 then p'\<lparr>plen := plen p' + 1, pmin := score\<rparr>
                             else p'\<lparr>plen := plen p' + 1\<rparr>), lookups'))))"

definition Partition_join :: "int list \<Rightarrow> Partition \<Rightarrow> Partition \<Rightarrow> error + Partition \<times> int list" where
  "Partition_join lookups p other =
     (if plen other + plen p \<le> length (indices p) then
        (let partitionIndices = subarray (indices other) 0 (plen other);
             lookups' = foldl (\<lambda>L x. ta_put (ta_put L (x * 3 + 1) (pid p)) (x * 3 + 2) (- 1))
                          lookups partitionIndices
         in case interleaveArrays (replicate (length (indices p)) 0)
                   (subarray (indices p) 0 (plen p)) partitionIndices
                   (\<lambda>a b. if scoreAt lookups' (partitionIndices ! b) - scoreAt lookups' (indices p ! a) \<noteq> 0
                          then scoreAt lookups' (partitionIndices ! b) - scoreAt lookups' (indices p ! a)
                          else partitionIndices ! b - indices p ! a) of
              None \<Rightarrow> Inl NoReturn
            | Some merged \<Rightarrow> Inr (p\<lparr>indices := merged, plen := plen p + plen other\<rparr>, lookups'))
      else Inl JoinOverflow)"

definition Partition_next :: "Partition \<Rightarrow> int option" where
  "Partition_next p = (if plen p \<noteq> 0 then Some (indices p ! (plen p - 1)) else None)"

definition Partition_remove :: "int list \<Rightarrow> Partition \<Rightarrow> int \<Rightarrow> error + Partition \<times> int list" where
  "Partition_remove lookups p index =
     (let score = scoreAt lookups index
      in thenE (searchIndex (plen p) (\<lambda>i. compareTo lookups score index (indices p ! i)))
           (\<lambda>partitionIndex.
              thenE (case partitionIndex of
                       Some k \<Rightarrow> if k + 1 < plen p then Partition_reindex p (Some k) None index else Inr p
                     | None \<Rightarrow> Inr p)
                (\<lambda>p'. Inr (p'\<lparr>plen := plen p' - 1\<rparr>, ta_put lookups (index * 3 + 1) (- 1)))))"

text \<open>
  \<^verbatim>\<open>split()\<close> is called on a full partition only, whose length is the even
  \<^verbatim>\<open>partitionLength\<close>: \<^verbatim>\<open>this.length / 2\<close> is then the integer half.
\<close>

definition Partition_split :: "Partition \<Rightarrow> error + int list \<times> Partition" where
  "Partition_split p =
     thenE (ta_set (replicate (plen p) 0) (subarray (indices p) (plen p div 2) (length (indices p))) 0)
       (\<lambda>splitIndices. Inr (splitIndices, p\<lparr>plen := plen p div 2\<rparr>))"

definition Partition_update :: "int list \<Rightarrow> Partition \<Rightarrow> int \<Rightarrow> int \<Rightarrow> error + Partition" where
  "Partition_update lookups p index score =
     (let currentScore = scoreAt lookups index in
      if score \<noteq> currentScore then
        thenE (searchIndex (plen p) (\<lambda>i. compareTo lookups currentScore index (indices p ! i)))
          (\<lambda>current.
             case current of
               None \<Rightarrow> Inr p
             | Some currentPartitionIndex \<Rightarrow>
                 if (currentPartitionIndex > 0 \<and> score \<le> scoreAt lookups (indices p ! (currentPartitionIndex - 1))) \<or>
                    (currentPartitionIndex + 1 < plen p \<and> score \<ge> scoreAt lookups (indices p ! (currentPartitionIndex + 1)))
                 then
                   thenE (searchIndex (plen p) (\<lambda>i. compareTo lookups score index (indices p ! i)))
                     (\<lambda>target.
                        let found = (case target of Some k \<Rightarrow> k | None \<Rightarrow> 0);
                            clamped = min (plen p - 1) found;
                            partitionIndex =
                              (if currentPartitionIndex < clamped \<and> clamped > 0 \<and>
                                  compareTo lookups score index (indices p ! clamped) < 0
                               then clamped - 1 else clamped)
                        in thenE (if currentPartitionIndex \<noteq> partitionIndex
                                  then Partition_reindex p (Some currentPartitionIndex) (Some partitionIndex) index
                                  else Inr p)
                             (\<lambda>p'. Inr (if partitionIndex = 0 then p'\<lparr>pmin := score\<rparr>
                                        else if currentPartitionIndex = 0 then p'\<lparr>pmin := scoreAt lookups (indices p' ! 0)\<rparr>
                                        else p')))
                 else if currentPartitionIndex = 0 then Inr (p\<lparr>pmin := score\<rparr>)
                 else Inr p)
      else Inr p)"

definition UniformPartition_insert :: "int list \<Rightarrow> Partition \<Rightarrow> int \<Rightarrow> Partition \<times> int list" where
  "UniformPartition_insert lookups p index =
     (let lookups1 = ta_put lookups (index * 3 + 1) (pid p);
          inds = (if length (indices p) = plen p then indices p @ replicate (plen p) 0 else indices p);
          lookups2 = ta_put lookups1 (index * 3 + 2) (int (plen p))
      in (p\<lparr>indices := inds[plen p := index], plen := plen p + 1\<rparr>, lookups2))"

definition UniformPartition_join :: "int list \<Rightarrow> Partition \<Rightarrow> Partition \<Rightarrow> error + Partition \<times> int list" where
  "UniformPartition_join lookups p other =
     (let expanded = (if plen p + plen other > length (indices p)
                      then indices p @ replicate (plen p + plen other - length (indices p)) 0
                      else indices p)
      in thenE (ta_set expanded (subarray (indices other) 0 (plen other)) (plen p))
           (\<lambda>inds. Inr (p\<lparr>indices := inds, plen := plen p + plen other\<rparr>,
              foldl (\<lambda>L i. if inds ! i \<ge> 0
                            then ta_put (ta_put L (inds ! i * 3 + 1) (pid p)) (inds ! i * 3 + 2) (int i)
                            else L)
                lookups [plen p ..< plen p + plen other])))"

text \<open>
  The compaction loop of \<^verbatim>\<open>UniformPartition.next\<close>:
  \<^verbatim>\<open>while (--this.length > 0 && indices[this.length - 1] < 0) {}\<close>, from the length before
  the first decrement to the length after the last.
\<close>

function skipTombstones :: "int list \<Rightarrow> nat \<Rightarrow> nat" where
  "skipTombstones inds len =
     (if len - 1 > 0 \<and> inds ! (len - 1 - 1) < 0 then skipTombstones inds (len - 1) else len - 1)"
  by pat_completeness auto
termination
  by (relation "measure (\<lambda>(inds, len). len)") auto

definition UniformPartition_next :: "Partition \<Rightarrow> int option \<times> Partition" where
  "UniformPartition_next p =
     (if plen p \<noteq> 0 then
        (let len = (if indices p ! (plen p - 1) < 0 then skipTombstones (indices p) (plen p) else plen p)
         in if len \<noteq> 0 then (Some (indices p ! (len - 1)), p\<lparr>plen := len\<rparr>)
            else (None, p\<lparr>plen := len, indices := [0]\<rparr>))
      else (None, p))"

definition UniformPartition_remove :: "int list \<Rightarrow> Partition \<Rightarrow> int \<Rightarrow> Partition \<times> int list" where
  "UniformPartition_remove lookups p index =
     (let partitionIndex = lookups ! nat (index * 3 + 2)
      in (p\<lparr>indices := ta_put (indices p) partitionIndex (- 1)\<rparr>,
          ta_put (ta_put lookups (index * 3 + 1) (- 1)) (index * 3 + 2) (- 1)))"

section \<open>ScoreHeap\<close>

record ScoreHeap =
  lookups :: "int list"
  partitions :: "Partition list"
  partitionIds :: "int \<Rightarrow> nat option"
  nextId :: int
  partitionLength :: nat

text \<open>Method calls on a partition dispatch on its class.\<close>

definition p_insert ::
  "int list \<Rightarrow> Partition \<Rightarrow> int \<Rightarrow> int \<Rightarrow> nat option \<Rightarrow> error + Partition \<times> int list" where
  "p_insert L p index score hint =
     (if uniform p then Inr (UniformPartition_insert L p index) else Partition_insert L p index score hint)"

definition p_remove :: "int list \<Rightarrow> Partition \<Rightarrow> int \<Rightarrow> error + Partition \<times> int list" where
  "p_remove L p index =
     (if uniform p then Inr (UniformPartition_remove L p index) else Partition_remove L p index)"

definition p_update :: "int list \<Rightarrow> Partition \<Rightarrow> int \<Rightarrow> int \<Rightarrow> error + Partition" where
  "p_update L p index score = (if uniform p then Inr p else Partition_update L p index score)"

definition p_join :: "int list \<Rightarrow> Partition \<Rightarrow> Partition \<Rightarrow> error + Partition \<times> int list" where
  "p_join L p other = (if uniform p then UniformPartition_join L p other else Partition_join L p other)"

definition p_next :: "Partition \<Rightarrow> int option \<times> Partition" where
  "p_next p = (if uniform p then UniformPartition_next p else (Partition_next p, p))"

text \<open>
  The constructor. \<^verbatim>\<open>2 ** Math.floor(Math.log2(n / 1024))\<close> is below 1 when \<open>n < 1024\<close>
  (it is 0 for \<open>n = 0\<close>), where the maximum with 32 decides; from 1024 on it is the largest
  power of two not above \<open>n div 1024\<close>.
\<close>

fun log2floor :: "nat \<Rightarrow> nat" where
  "log2floor n = (if n < 2 then 0 else Suc (log2floor (n div 2)))"

definition partitionLengthFor :: "nat \<Rightarrow> nat" where
  "partitionLengthFor n =
     min 4096 (max 32 (if n < 1024 then 0 else 2 ^ log2floor (n div 1024)))"

text \<open>
  \<^verbatim>\<open>indexScores.sort((a, b) => a[1] - b[1] || a[0] - b[0])\<close>: a stable sort by score,
  then by index.
\<close>

definition pairCompare :: "int \<times> int \<Rightarrow> int \<times> int \<Rightarrow> int" where
  "pairCompare a b = (if snd a - snd b \<noteq> 0 then snd a - snd b else fst a - fst b)"

fun insertPair :: "int \<times> int \<Rightarrow> (int \<times> int) list \<Rightarrow> (int \<times> int) list" where
  "insertPair a [] = [a]"
| "insertPair a (b # bs) = (if pairCompare a b \<le> 0 then a # b # bs else b # insertPair a bs)"

definition sortPairs :: "(int \<times> int) list \<Rightarrow> (int \<times> int) list" where
  "sortPairs xs = foldr insertPair xs []"

function extendUniform ::
  "(int \<times> int) list \<Rightarrow> nat \<Rightarrow> int list \<Rightarrow> int list \<Rightarrow> nat \<times> int list \<times> int list" where
  "extendUniform xs i chunk L =
     (if i < length xs \<and> snd (xs ! i) = snd (xs ! (i - 1))
      then extendUniform xs (i + 1) (chunk @ [fst (xs ! i)]) (ta_put L (fst (xs ! i) * 3) (snd (xs ! i)))
      else (i, chunk, L))"
  by pat_completeness auto
termination
  by (relation "measure (\<lambda>(xs, i, chunk, L). length xs - i)") auto

text \<open>
  The partitioning loop of the constructor, from position \<open>i\<close> of the sorted pairs. The
  loop makes no progress when \<^verbatim>\<open>partitionLength\<close> is 0, so it is a partial function;
  that the constructor returns is part of what is proved about it.
\<close>

partial_function (option) partitionLoop :: "(int \<times> int) list \<Rightarrow> nat \<Rightarrow> ScoreHeap \<Rightarrow> ScoreHeap option" where
  [code]: "partitionLoop xs i h =
     (if i < length xs then
        (let n = min (length xs) (i + partitionLength h);
             slice = take (n - i) (drop i xs);
             chunk0 = map fst slice;
             L0 = foldl (\<lambda>L (index, score). ta_put L (index * 3) score) (lookups h) slice;
             isUniform = (length chunk0 = partitionLength h \<and>
                          snd (xs ! (n - 1)) = snd (xs ! (n - length chunk0)))
         in case (if isUniform then extendUniform xs n chunk0 L0 else (n, chunk0, L0)) of
              (i', chunk, L1) \<Rightarrow>
                (case (if isUniform then new_UniformPartition (nextId h) L1 chunk (length chunk)
                       else new_Partition (nextId h) L1
                              (chunk @ replicate (partitionLength h - length chunk) 0) (length chunk)) of
                   (p, L2) \<Rightarrow>
                     partitionLoop xs i'
                       (h\<lparr>lookups := L2,
                          partitions := partitions h @ [p],
                          partitionIds := (partitionIds h)(nextId h \<mapsto> length (partitions h)),
                          nextId := nextId h + 1\<rparr>)))
      else Some h)"

definition ScoreHeap_new :: "(int \<times> int) list \<Rightarrow> nat \<Rightarrow> ScoreHeap option" where
  "ScoreHeap_new indexScores maxLength =
     partitionLoop (sortPairs indexScores) 0
       \<lparr>lookups = replicate (maxLength * 3) (- 1),
        partitions = [],
        partitionIds = Map.empty,
        nextId = 0,
        partitionLength = partitionLengthFor (length indexScores)\<rparr>"

text \<open>
  \<^verbatim>\<open>next()\<close>: the first call on the last partition, then the loop that pops exhausted
  partitions. A popped partition is dropped with whatever \<^verbatim>\<open>next\<close> did to it.
\<close>

function popLoop :: "Partition list \<Rightarrow> int option \<times> Partition list" where
  "popLoop ps =
     (if ps \<noteq> [] then
        (case p_next (last ps) of
           (None, p') \<Rightarrow> popLoop (butlast ps)
         | (Some x, p') \<Rightarrow> (Some x, butlast ps @ [p']))
      else (None, ps))"
  by pat_completeness auto
termination
  by (relation "measure length") auto

definition ScoreHeap_next :: "ScoreHeap \<Rightarrow> int option \<times> ScoreHeap" where
  "ScoreHeap_next h =
     (if partitions h \<noteq> [] then
        (case p_next (last (partitions h)) of
           (None, p') \<Rightarrow>
             (case popLoop (butlast (partitions h)) of (r, ps) \<Rightarrow> (r, h\<lparr>partitions := ps\<rparr>))
         | (Some x, p') \<Rightarrow> (Some x, h\<lparr>partitions := butlast (partitions h) @ [p']\<rparr>))
      else (None, h))"

definition ScoreHeap_reindex :: "Partition list \<Rightarrow> (int \<Rightarrow> nat option) \<Rightarrow> nat \<Rightarrow> (int \<Rightarrow> nat option)" where
  "ScoreHeap_reindex ps ids index = foldl (\<lambda>m i. m(pid (ps ! i) \<mapsto> i)) ids [index ..< length ps]"

definition splice1 :: "'a list \<Rightarrow> nat \<Rightarrow> 'a list" where
  \<comment> \<open>\<^verbatim>\<open>splice(index, 1)\<close>\<close>
  "splice1 ps index = take index ps @ drop (index + 1) ps"

definition ScoreHeap_remove :: "ScoreHeap \<Rightarrow> int \<Rightarrow> error + int option \<times> ScoreHeap" where
  "ScoreHeap_remove h index =
     (if partitions h \<noteq> [] then
        (case ta_get (lookups h) (index * 3 + 1) of
           None \<Rightarrow> Inr (None, h)
         | Some partitionId \<Rightarrow>
             if partitionId \<ge> 0 then
               (case partitionIds h partitionId of
                  None \<Rightarrow> Inl TypeError
                | Some partitionIndex \<Rightarrow>
                    if partitionIndex < length (partitions h) then
                      thenE (p_remove (lookups h) (partitions h ! partitionIndex) index)
                        (\<lambda>(p', L').
                           if plen p' = 0 then
                             (let ps = splice1 ((partitions h)[partitionIndex := p']) partitionIndex
                              in Inr (Some index,
                                      h\<lparr>lookups := L', partitions := ps,
                                        partitionIds := ScoreHeap_reindex ps (partitionIds h) partitionIndex\<rparr>))
                           else Inr (Some index,
                                     h\<lparr>lookups := L', partitions := (partitions h)[partitionIndex := p']\<rparr>))
                    else Inl TypeError)
             else Inr (None, h))
      else Inr (None, h))"

definition ScoreHeap_insertPartition :: "ScoreHeap \<Rightarrow> nat \<Rightarrow> int list \<Rightarrow> nat \<Rightarrow> ScoreHeap" where
  \<comment> \<open>the partition it returns is the one at position \<open>index\<close> of the new heap\<close>
  "ScoreHeap_insertPartition h index inds len =
     (case new_Partition (nextId h) (lookups h) inds len of
        (p, L) \<Rightarrow>
          (let ps = take index (partitions h) @ [p] @ drop index (partitions h);
               ids = (partitionIds h)(nextId h \<mapsto> index)
           in h\<lparr>lookups := L, partitions := ps,
                partitionIds := ScoreHeap_reindex ps ids (index + 1),
                nextId := nextId h + 1\<rparr>))"

definition ScoreHeap_joinPartitions :: "ScoreHeap \<Rightarrow> int \<Rightarrow> error + ScoreHeap" where
  "ScoreHeap_joinPartitions h index =
     (if index \<ge> 0 \<and> index < int (length (partitions h)) - 1 then
        (let i = nat index;
             ps = partitions h;
             partition1 = ps ! i;
             partition2 = ps ! (i + 1)
         in if pmin partition1 = pmax (lookups h) partition2 then
              (if uniform partition1 then
                 thenE (UniformPartition_join (lookups h) partition1 partition2)
                   (\<lambda>(p, L). let ps' = splice1 (ps[i := p]) (i + 1)
                             in Inr (h\<lparr>lookups := L, partitions := ps',
                                       partitionIds := ScoreHeap_reindex ps' (partitionIds h) (i + 1)\<rparr>))
               else if uniform partition2 then
                 thenE (UniformPartition_join (lookups h) partition2 partition1)
                   (\<lambda>(p, L). let ps' = splice1 (ps[i + 1 := p]) i
                             in Inr (h\<lparr>lookups := L, partitions := ps',
                                       partitionIds := ScoreHeap_reindex ps' (partitionIds h) i\<rparr>))
               else
                 thenE (ta_set (replicate (plen partition1 + plen partition2) 0)
                          (subarray (indices partition1) 0 (plen partition1)) 0)
                   (\<lambda>a. thenE (ta_set a (subarray (indices partition2) 0 (plen partition2)) (plen partition1))
                      (\<lambda>partitionIndices.
                         case new_UniformPartition (nextId h) (lookups h) partitionIndices (length partitionIndices) of
                           (u, L) \<Rightarrow>
                             (let ps' = take i ps @ [u] @ drop (i + 2) ps;
                                  ids = (partitionIds h)(nextId h \<mapsto> i)
                              in Inr (h\<lparr>lookups := L, partitions := ps',
                                        partitionIds := ScoreHeap_reindex ps' ids (i + 1),
                                        nextId := nextId h + 1\<rparr>)))))
            else if \<not> uniform partition1 \<and> \<not> uniform partition2 \<and>
                    plen partition1 + plen partition2 \<le> partitionLength h then
              thenE (Partition_join (lookups h) partition1 partition2)
                (\<lambda>(p, L). let ps' = splice1 (ps[i := p]) (i + 1)
                          in Inr (h\<lparr>lookups := L, partitions := ps',
                                    partitionIds := ScoreHeap_reindex ps' (partitionIds h) i\<rparr>))
            else Inr h)
      else Inr h)"

text \<open>
  The comparator \<^verbatim>\<open>update\<close> hands to \<^verbatim>\<open>searchBinary\<close> to find the partition for a score.
\<close>

definition routeCompare :: "Partition list \<Rightarrow> int \<Rightarrow> nat \<Rightarrow> int" where
  "routeCompare ps score i =
     (if pmin (ps ! i) \<le> score then
        (if i + 1 = length ps \<or> pmin (ps ! (i + 1)) > score then 0 else 1)
      else if i = 0 then 0
      else - 1)"

definition setPartition :: "ScoreHeap \<Rightarrow> nat \<Rightarrow> Partition \<times> int list \<Rightarrow> ScoreHeap" where
  "setPartition h k r = h\<lparr>lookups := snd r, partitions := (partitions h)[k := fst r]\<rparr>"

text \<open>
  The decision list of \<^verbatim>\<open>update\<close> once the score is in the side table and the heap has
  partitions (cases 1 to 10 of the source; case 4 is disabled there by \<^verbatim>\<open>false &&\<close>).
\<close>

definition ScoreHeap_place :: "ScoreHeap \<Rightarrow> int \<Rightarrow> int \<Rightarrow> error + ScoreHeap" where
  "ScoreHeap_place h index score =
     (let ps = partitions h; L = lookups h; pl = partitionLength h in
      thenE (searchIndex (length ps) (routeCompare ps score))
        (\<lambda>found.
      case found of
        None \<Rightarrow> Inl TypeError
      | Some partitionIndex \<Rightarrow>
          if partitionIndex \<ge> length ps then Inl TypeError
          else
            (let partition = ps ! partitionIndex;
                 partitionMax = pmax L partition;
                 lowerPartition = (if partitionIndex > 0 then Some (ps ! (partitionIndex - 1)) else None);
                 upperPartition = (if partitionIndex < length ps - 1 then Some (ps ! (partitionIndex + 1)) else None)
             in
               if uniform partition \<and> pmin partition = score then
                 thenE (p_insert L partition index score None)
                   (\<lambda>r. Inr (setPartition h partitionIndex r))
               else if (case lowerPartition of None \<Rightarrow> False
                        | Some lower \<Rightarrow> uniform lower \<and> pmin lower = score) then
                 (case lowerPartition of None \<Rightarrow> Inl TypeError
                  | Some lower \<Rightarrow>
                      thenE (p_insert L lower index score None)
                        (\<lambda>r. Inr (setPartition h (partitionIndex - 1) r)))
               else if \<not> uniform partition \<and> plen partition < pl \<and> score > partitionMax then
                 thenE (p_insert L partition index score (Some (plen partition)))
                   (\<lambda>r. Inr (setPartition h partitionIndex r))
               else if ((uniform partition \<or> plen partition = pl) \<and> score \<ge> partitionMax) \<and>
                       (case upperPartition of None \<Rightarrow> False
                        | Some upper \<Rightarrow> \<not> uniform upper \<and> plen upper < pl) then
                 (case upperPartition of None \<Rightarrow> Inl TypeError
                  | Some upper \<Rightarrow>
                      thenE (p_insert L upper index score (Some 0))
                        (\<lambda>r. Inr (setPartition h (partitionIndex + 1) r)))
               else if ((uniform partition \<or> plen partition = pl) \<and> score = pmin partition) \<and>
                       (case lowerPartition of None \<Rightarrow> False
                        | Some lower \<Rightarrow>
                            \<not> uniform lower \<and>
                            (plen lower < pl \<or> (score = pmin lower \<and> pmin lower = pmax L lower))) then
                 (case lowerPartition of None \<Rightarrow> Inl TypeError
                  | Some lower \<Rightarrow>
                      if plen lower < pl then
                        thenE (p_insert L lower index score None)
                          (\<lambda>r. Inr (setPartition h (partitionIndex - 1) r))
                      else
                        (case new_UniformPartition (pid lower) L (indices lower) (plen lower) of
                           (u, L') \<Rightarrow>
                             Inr (setPartition h (partitionIndex - 1) (UniformPartition_insert L' u index))))
               else if uniform partition then
                 Inr (ScoreHeap_insertPartition h
                        (if score > pmin partition then partitionIndex + 1 else partitionIndex)
                        ((replicate pl 0)[0 := index]) 1)
               else if plen partition < pl then
                 thenE (p_insert L partition index score None)
                   (\<lambda>r. Inr (setPartition h partitionIndex r))
               else if score = pmin partition \<and> pmin partition = partitionMax then
                 (case new_UniformPartition (pid partition) L (indices partition) (plen partition) of
                    (u, L') \<Rightarrow> Inr (setPartition h partitionIndex (UniformPartition_insert L' u index)))
               else
                 thenE (Partition_split partition)
                   (\<lambda>(splitIndices, partition').
                      let h1 = ScoreHeap_insertPartition (h\<lparr>partitions := ps[partitionIndex := partition']\<rparr>)
                                 (partitionIndex + 1) splitIndices (pl div 2);
                          newPartition = partitions h1 ! (partitionIndex + 1)
                      in if pmin newPartition > score then
                           thenE (p_insert (lookups h1) (partitions h1 ! partitionIndex) index score None)
                             (\<lambda>r. Inr (setPartition h1 partitionIndex r))
                         else
                           thenE (p_insert (lookups h1) newPartition index score None)
                             (\<lambda>r. Inr (setPartition h1 (partitionIndex + 1) r))))))"

definition ScoreHeap_reinsert :: "ScoreHeap \<Rightarrow> int \<Rightarrow> int \<Rightarrow> error + ScoreHeap" where
  \<comment> \<open>from \<^verbatim>\<open>lookups[index * 3] = score\<close> (``must be done before insertion'') to the end of \<^verbatim>\<open>update\<close>\<close>
  "ScoreHeap_reinsert h index score =
     (let h1 = h\<lparr>lookups := ta_put (lookups h) (index * 3) score\<rparr> in
      if partitions h1 = [] then
        Inr (ScoreHeap_insertPartition h1 0 ((replicate (partitionLength h1) 0)[0 := index]) 1)
      else ScoreHeap_place h1 index score)"

definition ScoreHeap_update :: "ScoreHeap \<Rightarrow> int \<Rightarrow> int \<Rightarrow> error + ScoreHeap" where
  "ScoreHeap_update h index score =
     (let ps = partitions h;
          currentPartitionId = ta_get (lookups h) (index * 3 + 1);
          currentPartitionIndex =
            (case currentPartitionId of
               Some c \<Rightarrow> if c \<ge> 0 then partitionIds h c else None
             | None \<Rightarrow> None);
          current =
            (case currentPartitionIndex of
               Some k \<Rightarrow> if k < length ps then Some k else None
             | None \<Rightarrow> None)
      in case current of
           Some k \<Rightarrow>
             (let currentPartition = ps ! k in
              if (if uniform currentPartition then pmin currentPartition = score
                  else (length ps = 1 \<or>
                        (pmin currentPartition \<le> score \<and>
                         (k + 1 = length ps \<or> pmin (ps ! (k + 1)) > score))))
              then
                thenE (p_update (lookups h) currentPartition index score)
                  (\<lambda>p'. Inr (h\<lparr>lookups := ta_put (lookups h) (index * 3) score,
                                partitions := ps[k := p']\<rparr>))
              else
                thenE (p_remove (lookups h) currentPartition index)
                  (\<lambda>(p', L').
                     thenE (if plen p' = 0 then
                              (let ps' = splice1 (ps[k := p']) k
                               in ScoreHeap_joinPartitions
                                    (h\<lparr>lookups := L', partitions := ps',
                                       partitionIds := ScoreHeap_reindex ps' (partitionIds h) k\<rparr>)
                                    (int k - 1))
                            else Inr (h\<lparr>lookups := L', partitions := ps[k := p']\<rparr>))
                       (\<lambda>h2. ScoreHeap_reinsert h2 index score)))
         | None \<Rightarrow> ScoreHeap_reinsert h index score)"


section \<open>Specification vocabulary\<close>

subsection \<open>Utilities\<close>

text \<open>
  A three-way comparator over sorted positions: where the probe is greater than the
  element the value is positive, so positive values come first and negative values last.
\<close>

definition cmpSorted :: "nat \<Rightarrow> (nat \<Rightarrow> int) \<Rightarrow> bool" where
  "cmpSorted n cmp = (\<forall>j<n. \<forall>i<j. (cmp j > 0 \<longrightarrow> cmp i > 0) \<and> (cmp i < 0 \<longrightarrow> cmp j < 0))"

text \<open>
  The insertion point in the words of the specification: the first position whose
  comparator value is \<open>\<ge> 0\<close>, clamped into \<open>[0, n - 1]\<close>.
\<close>

definition claimedInsertionPoint :: "nat \<Rightarrow> (nat \<Rightarrow> int) \<Rightarrow> nat" where
  "claimedInsertionPoint n cmp = min (n - 1) (length (takeWhile (\<lambda>i. cmp i < 0) [0 ..< n]))"

definition alwaysGreater :: "nat \<Rightarrow> int" where
  "alwaysGreater i = 1"

definition oneMatch :: "nat \<Rightarrow> int" where
  "oneMatch i = 1 - int i"

text \<open>What the last probe of the search loop tells about the comparator.\<close>

definition probeOk :: "int \<Rightarrow> (int \<Rightarrow> int) \<Rightarrow> int \<times> int \<Rightarrow> bool" where
  "probeOk n f cr =
     (case cr of
        (c, r) \<Rightarrow>
          0 \<le> c \<and> c < n \<and> r = f c \<and>
          (r = 0 \<or>
           (r > 0 \<and> (\<forall>i. 0 \<le> i \<and> i \<le> c \<longrightarrow> f i > 0) \<and> (\<forall>i. c < i \<and> i < n \<longrightarrow> f i < 0)) \<or>
           (r < 0 \<and> (\<forall>i. 0 \<le> i \<and> i < c \<longrightarrow> f i > 0) \<and> (\<forall>i. c \<le> i \<and> i < n \<longrightarrow> f i < 0))))"

text \<open>
  The merge as a list function: from positions \<open>j\<close> of \<open>A\<close> and \<open>k\<close> of \<open>B\<close>, an element
  of \<open>B\<close> is taken while the comparator is negative (or \<open>A\<close> is used up), otherwise the
  element of \<open>A\<close>.
\<close>

function imerge :: "(nat \<Rightarrow> nat \<Rightarrow> int) \<Rightarrow> int list \<Rightarrow> int list \<Rightarrow> nat \<Rightarrow> nat \<Rightarrow> int list" where
  "imerge fn A B j k =
     (if k < length B \<and> (j \<ge> length A \<or> fn j k < 0) then B ! k # imerge fn A B j (k + 1)
      else if j < length A then A ! j # imerge fn A B (j + 1) k
      else [])"
  by pat_completeness auto
termination
  by (relation "measure (\<lambda>(fn, A, B, j, k). (length A - j) + (length B - k))") auto

text \<open>
  Stability of a merge by a key: among the elements of one key, those of the first list
  come first (\<open>tiesFirst key A B out\<close>); the specification's sentence on equal elements
  is \<open>tiesFirst key B A out\<close>.
\<close>

definition tiesFirst :: "(int \<Rightarrow> 'k) \<Rightarrow> int list \<Rightarrow> int list \<Rightarrow> int list \<Rightarrow> bool" where
  "tiesFirst key A B out =
     (\<forall>v. filter (\<lambda>x. key x = v) out = filter (\<lambda>x. key x = v) A @ filter (\<lambda>x. key x = v) B)"

definition zeroCompare :: "nat \<Rightarrow> nat \<Rightarrow> int" where
  "zeroCompare j k = 0"

definition zeroKey :: "int \<Rightarrow> nat" where
  "zeroKey x = 0"

subsection \<open>Presence, and the scenario heaps\<close>

text \<open>
  An identifier is present when its owning-partition field in the side table is
  non-negative; outside the table the field reads \<^verbatim>\<open>undefined\<close>, which is not present.
\<close>

definition present :: "ScoreHeap \<Rightarrow> int \<Rightarrow> bool" where
  "present h index =
     (case ta_get (lookups h) (index * 3 + 1) of None \<Rightarrow> False | Some owner \<Rightarrow> owner \<ge> 0)"

text \<open>Scenario A of the specification: capacity 4, four identifiers of score 5.\<close>

definition pairsA :: "(int \<times> int) list" where
  "pairsA = [(0, 5), (1, 5), (2, 5), (3, 5)]"

definition heapA :: ScoreHeap where
  "heapA =
     \<lparr>lookups = [5, 0, - 1, 5, 0, - 1, 5, 0, - 1, 5, 0, - 1],
      partitions = [\<lparr>uniform = False, pid = 0, indices = [0, 1, 2, 3] @ replicate 28 0, plen = 4, pmin = 5\<rparr>],
      partitionIds = Map.empty(0 \<mapsto> 0), nextId = 1, partitionLength = 32\<rparr>"

definition heapA' :: ScoreHeap where
  "heapA' =
     \<lparr>lookups = [5, 0, - 1, 5, 0, - 1, 5, 0, - 1, 5, - 1, - 1],
      partitions = [\<lparr>uniform = False, pid = 0, indices = [0, 1, 2, 3] @ replicate 28 0, plen = 3, pmin = 5\<rparr>],
      partitionIds = Map.empty(0 \<mapsto> 0), nextId = 1, partitionLength = 32\<rparr>"

text \<open>
  A heap with a uniform partition: capacity 33 and the 32 identifiers 1 to 32, all of
  score 5 (a full chunk of equal scores). \<open>heap32\<close> is the heap the constructor builds
  from them and \<open>heap32'\<close> the heap after \<^verbatim>\<open>update(0, 5)\<close>.
\<close>

definition pairs32 :: "(int \<times> int) list" where
  "pairs32 = [(1, 5), (2, 5), (3, 5), (4, 5), (5, 5), (6, 5), (7, 5), (8, 5), (9, 5), (10, 5), (11, 5), (12, 5), (13, 5), (14, 5), (15, 5), (16, 5), (17, 5), (18, 5), (19, 5), (20, 5), (21, 5), (22, 5), (23, 5), (24, 5), (25, 5), (26, 5), (27, 5), (28, 5), (29, 5), (30, 5), (31, 5), (32, 5)]"

definition heap32 :: ScoreHeap where
  "heap32 =
     \<lparr>lookups = [- 1, - 1, - 1, 5, 0, 0, 5, 0, 1, 5, 0, 2, 5, 0, 3, 5, 0, 4, 5, 0, 5, 5, 0, 6, 5, 0, 7, 5, 0, 8, 5, 0, 9, 5, 0, 10, 5, 0, 11, 5, 0, 12, 5, 0, 13, 5, 0, 14, 5, 0, 15, 5, 0, 16, 5, 0, 17, 5, 0, 18, 5, 0, 19, 5, 0, 20, 5, 0, 21, 5, 0, 22, 5, 0, 23, 5, 0, 24, 5, 0, 25, 5, 0, 26, 5, 0, 27, 5, 0, 28, 5, 0, 29, 5, 0, 30, 5, 0, 31],
      partitions = [\<lparr>uniform = True, pid = 0, indices = [1, 2, 3, 4, 5, 6, 7, 8, 9, 10, 11, 12, 13, 14, 15, 16, 17, 18, 19, 20, 21, 22, 23, 24, 25, 26, 27, 28, 29, 30, 31, 32], plen = 32, pmin = 5\<rparr>],
      partitionIds = Map.empty(0 \<mapsto> 0), nextId = 1, partitionLength = 32\<rparr>"

definition heap32' :: ScoreHeap where
  "heap32' =
     \<lparr>lookups = [5, 0, 32, 5, 0, 0, 5, 0, 1, 5, 0, 2, 5, 0, 3, 5, 0, 4, 5, 0, 5, 5, 0, 6, 5, 0, 7, 5, 0, 8, 5, 0, 9, 5, 0, 10, 5, 0, 11, 5, 0, 12, 5, 0, 13, 5, 0, 14, 5, 0, 15, 5, 0, 16, 5, 0, 17, 5, 0, 18, 5, 0, 19, 5, 0, 20, 5, 0, 21, 5, 0, 22, 5, 0, 23, 5, 0, 24, 5, 0, 25, 5, 0, 26, 5, 0, 27, 5, 0, 28, 5, 0, 29, 5, 0, 30, 5, 0, 31],
      partitions = [\<lparr>uniform = True, pid = 0, indices = [1, 2, 3, 4, 5, 6, 7, 8, 9, 10, 11, 12, 13, 14, 15, 16, 17, 18, 19, 20, 21, 22, 23, 24, 25, 26, 27, 28, 29, 30, 31, 32, 0] @ replicate 31 0, plen = 33, pmin = 5\<rparr>],
      partitionIds = Map.empty(0 \<mapsto> 0), nextId = 1, partitionLength = 32\<rparr>"


text \<open>The identifiers in the live region of a partition (tombstones left out).\<close>

definition liveIds :: "Partition \<Rightarrow> int list" where
  "liveIds p =
     (if uniform p then filter (\<lambda>x. x \<ge> 0) (take (plen p) (indices p))
      else take (plen p) (indices p))"

subsection \<open>The side table by field, and the invariants of the heap\<close>

definition ownerAt :: "int list \<Rightarrow> int \<Rightarrow> int" where
  "ownerAt L x = L ! nat (x * 3 + 1)"

definition slotAt :: "int list \<Rightarrow> int \<Rightarrow> int" where
  "slotAt L x = L ! nat (x * 3 + 2)"

text \<open>An identifier of the key space: all three of its fields are inside the side table.\<close>

definition inTable :: "int list \<Rightarrow> int \<Rightarrow> bool" where
  "inTable L x = (0 \<le> x \<and> x * 3 + 2 < int (length L))"

text \<open>Members of a sorted partition are ordered by score, then by identifier.\<close>

definition keyOf :: "int list \<Rightarrow> int \<Rightarrow> int \<times> int" where
  "keyOf L x = (scoreAt L x, x)"

definition sortedInv :: "int list \<Rightarrow> nat \<Rightarrow> Partition \<Rightarrow> bool" where
  "sortedInv L pl p =
     (\<not> uniform p \<and> 0 < plen p \<and> plen p \<le> pl \<and> length (indices p) = pl \<and>
      (\<forall>x \<in> set (take (plen p) (indices p)). inTable L x \<and> ownerAt L x = pid p) \<and>
      sorted_wrt (\<lambda>x y. keyOf L x < keyOf L y) (take (plen p) (indices p)) \<and>
      pmin p \<le> scoreAt L (indices p ! 0))"

definition uniformInv :: "int list \<Rightarrow> Partition \<Rightarrow> bool" where
  "uniformInv L p =
     (uniform p \<and> plen p \<le> length (indices p) \<and> indices p \<noteq> [] \<and>
      (\<forall>k<plen p. indices p ! k \<ge> 0 \<longrightarrow>
         inTable L (indices p ! k) \<and> ownerAt L (indices p ! k) = pid p \<and>
         slotAt L (indices p ! k) = int k \<and> scoreAt L (indices p ! k) = pmin p))"

definition partitionInv :: "int list \<Rightarrow> nat \<Rightarrow> Partition \<Rightarrow> bool" where
  "partitionInv L pl p = (if uniform p then uniformInv L p else sortedInv L pl p)"

text \<open>The order invariant: \<^verbatim>\<open>S[i].max <= S[i+1].min\<close> for adjacent segments.\<close>

definition orderInv :: "int list \<Rightarrow> Partition list \<Rightarrow> bool" where
  "orderInv L ps = (\<forall>k. k + 1 < length ps \<longrightarrow> pmax L (ps ! k) \<le> pmin (ps ! (k + 1)))"

definition heapInv :: "ScoreHeap \<Rightarrow> bool" where
  "heapInv h =
     (length (lookups h) mod 3 = 0 \<and> 2 \<le> partitionLength h \<and> even (partitionLength h) \<and>
      (\<forall>p \<in> set (partitions h).
         partitionInv (lookups h) (partitionLength h) p \<and> 0 \<le> pid p \<and> pid p < nextId h) \<and>
      (\<forall>k<length (partitions h). partitionIds h (pid (partitions h ! k)) = Some k) \<and>
      orderInv (lookups h) (partitions h) \<and>
      (\<forall>x. inTable (lookups h) x \<and> 0 \<le> ownerAt (lookups h) x \<longrightarrow>
           (\<exists>p \<in> set (partitions h). pid p = ownerAt (lookups h) x \<and> x \<in> set (liveIds p))))"

section \<open>The utilities\<close>

declare interleaveInner.simps [simp del]
declare imerge.simps [simp del]

subsection \<open>searchBinary\<close>

lemma toInt32_small: "0 \<le> x \<Longrightarrow> x < 2147483648 \<Longrightarrow> toInt32 x = x"
  by (simp add: toInt32_def)

lemma shiftRight1_small: "0 \<le> x \<Longrightarrow> x < 2147483648 \<Longrightarrow> shiftRight1 x = x div 2"
  by (simp add: shiftRight1_def toInt32_small)

lemma searchLoop_spec:
  assumes "\<forall>i j. 0 \<le> i \<and> i \<le> j \<and> j < n \<longrightarrow> (f j > 0 \<longrightarrow> f i > 0) \<and> (f i < 0 \<longrightarrow> f j < 0)"
    and "\<forall>i. 0 \<le> i \<and> i < lo \<longrightarrow> f i > 0"
    and "\<forall>i. hi < i \<and> i < n \<longrightarrow> f i < 0"
    and "0 \<le> lo" and "hi < n" and "n \<le> 1073741824"
    and "lo \<le> hi \<or> (\<exists>cr. probe = Some cr \<and> probeOk n f cr)"
  shows "\<exists>cr. searchLoop f lo hi probe = Some (Some cr) \<and> probeOk n f cr"
  using assms
proof (induction "nat (hi - lo + 1)" arbitrary: lo hi probe rule: less_induct)
  case less
  note mono = less.prems(1) and lows = less.prems(2) and highs = less.prems(3)
    and lo0 = less.prems(4) and hin = less.prems(5) and bound = less.prems(6)
  show ?case
  proof (cases "lo \<le> hi")
    case False
    then have "searchLoop f lo hi probe = Some probe"
      by (subst searchLoop.simps) simp
    then show ?thesis using less.prems(7) False by auto
  next
    case True
    define c where "c = (lo + hi) div 2"
    have sh: "shiftRight1 (lo + hi) = c"
      unfolding c_def using lo0 hin bound True by (intro shiftRight1_small) simp_all
    have cb: "lo \<le> c" "c \<le> hi" using True by (simp_all add: c_def)
    have cn: "0 \<le> c" "c < n" using cb lo0 hin by simp_all
    consider (gt) "f c > 0" | (lt) "f c < 0" | (eq) "f c = 0" by linarith
    then show ?thesis
    proof cases
      case gt
      have step: "searchLoop f lo hi probe = searchLoop f (c + 1) hi (Some (c, f c))"
        using True gt by (subst searchLoop.simps) (simp add: sh Let_def)
      have lows': "\<forall>i. 0 \<le> i \<and> i < c + 1 \<longrightarrow> f i > 0"
      proof (intro allI impI)
        fix i assume "0 \<le> i \<and> i < c + 1"
        then have "0 \<le> i \<and> i \<le> c \<and> c < n" using cn by simp
        then show "f i > 0" using mono gt by blast
      qed
      have fin: "c + 1 \<le> hi \<or> (\<exists>cr. Some (c, f c) = Some cr \<and> probeOk n f cr)"
      proof (cases "c + 1 \<le> hi")
        case False
        then have "c = hi" using cb by simp
        then have "\<forall>i. c < i \<and> i < n \<longrightarrow> f i < 0" using highs by simp
        moreover have "\<forall>i. 0 \<le> i \<and> i \<le> c \<longrightarrow> f i > 0" using lows' by simp
        ultimately have "probeOk n f (c, f c)"
          unfolding probeOk_def using gt cn by simp
        then show ?thesis by simp
      qed simp
      have c1: "0 \<le> c + 1" using cn by simp
      have m: "nat (hi - (c + 1) + 1) < nat (hi - lo + 1)" using cb True by simp
      have "\<exists>cr. searchLoop f (c + 1) hi (Some (c, f c)) = Some (Some cr) \<and> probeOk n f cr"
        by (rule less.hyps[OF m mono lows' highs c1 hin bound fin])
      then show ?thesis using step by simp
    next
      case lt
      have step: "searchLoop f lo hi probe = searchLoop f lo (c - 1) (Some (c, f c))"
        using True lt by (subst searchLoop.simps) (simp add: sh Let_def)
      have highs': "\<forall>i. c - 1 < i \<and> i < n \<longrightarrow> f i < 0"
      proof (intro allI impI)
        fix i assume "c - 1 < i \<and> i < n"
        then have "0 \<le> c \<and> c \<le> i \<and> i < n" using cn by simp
        then show "f i < 0" using mono lt by blast
      qed
      have fin: "lo \<le> c - 1 \<or> (\<exists>cr. Some (c, f c) = Some cr \<and> probeOk n f cr)"
      proof (cases "lo \<le> c - 1")
        case False
        then have "c = lo" using cb by simp
        then have "\<forall>i. 0 \<le> i \<and> i < c \<longrightarrow> f i > 0" using lows by simp
        moreover have "\<forall>i. c \<le> i \<and> i < n \<longrightarrow> f i < 0" using highs' by simp
        ultimately have "probeOk n f (c, f c)"
          unfolding probeOk_def using lt cn by simp
        then show ?thesis by simp
      qed simp
      have c1: "c - 1 < n" using cn by simp
      have m: "nat (c - 1 - lo + 1) < nat (hi - lo + 1)" using cb True by simp
      have "\<exists>cr. searchLoop f lo (c - 1) (Some (c, f c)) = Some (Some cr) \<and> probeOk n f cr"
        by (rule less.hyps[OF m mono lows highs' lo0 c1 bound fin])
      then show ?thesis using step by simp
    next
      case eq
      have "searchLoop f lo hi probe = Some (Some (c, 0))"
        using True eq by (subst searchLoop.simps) (simp add: sh Let_def)
      moreover have "probeOk n f (c, 0)" unfolding probeOk_def using cn eq by simp
      ultimately show ?thesis by simp
    qed
  qed
qed

lemma searchBinary_zero: "searchBinary 0 f = Some None"
  by (simp add: searchBinary_def searchLoop.simps)

lemma searchBinary_spec:
  assumes "cmpSorted n cmp" and "0 < n" and "n \<le> 1073741824"
  shows "\<exists>r. searchBinary (int n) (\<lambda>i. cmp (nat i)) = Some (Some (int r)) \<and> r \<le> n \<and>
           (if \<exists>i<n. cmp i = 0 then r < n \<and> cmp r = 0
            else (\<forall>i<r. cmp i > 0) \<and> (\<forall>i. r \<le> i \<and> i < n \<longrightarrow> cmp i < 0))"
proof -
  let ?f = "\<lambda>i. cmp (nat i)"
  have mono: "\<forall>i j. 0 \<le> i \<and> i \<le> j \<and> j < int n \<longrightarrow> (?f j > 0 \<longrightarrow> ?f i > 0) \<and> (?f i < 0 \<longrightarrow> ?f j < 0)"
  proof (intro allI impI)
    fix i j :: int assume h: "0 \<le> i \<and> i \<le> j \<and> j < int n"
    show "(?f j > 0 \<longrightarrow> ?f i > 0) \<and> (?f i < 0 \<longrightarrow> ?f j < 0)"
    proof (cases "i = j")
      case False
      then have "nat i < nat j" "nat j < n" using h by auto
      then have "(cmp (nat j) > 0 \<longrightarrow> cmp (nat i) > 0) \<and> (cmp (nat i) < 0 \<longrightarrow> cmp (nat j) < 0)"
        using assms(1) unfolding cmpSorted_def by blast
      then show ?thesis by simp
    qed simp
  qed
  obtain c r where sl: "searchLoop ?f 0 (int n - 1) None = Some (Some (c, r))" and ok: "probeOk (int n) ?f (c, r)"
    using searchLoop_spec[of "int n" ?f 0 "int n - 1" None] mono assms(2,3) by auto
  have c: "0 \<le> c" "c < int n" and r: "r = cmp (nat c)" using ok by (auto simp: probeOk_def)
  consider (eq) "r = 0"
    | (gt) "r > 0" "\<forall>i. 0 \<le> i \<and> i \<le> c \<longrightarrow> ?f i > 0" "\<forall>i. c < i \<and> i < int n \<longrightarrow> ?f i < 0"
    | (lt) "r < 0" "\<forall>i. 0 \<le> i \<and> i < c \<longrightarrow> ?f i > 0" "\<forall>i. c \<le> i \<and> i < int n \<longrightarrow> ?f i < 0"
    using ok by (auto simp: probeOk_def)
  then show ?thesis
  proof cases
    case eq
    then have "searchBinary (int n) ?f = Some (Some (int (nat c)))" using sl c by (simp add: searchBinary_def)
    moreover have "nat c < n" "cmp (nat c) = 0" using c r eq by auto
    ultimately show ?thesis by (intro exI[of _ "nat c"]) auto
  next
    case gt
    have res: "searchBinary (int n) ?f = Some (Some (int (nat (c + 1))))" using sl gt(1) c by (simp add: searchBinary_def)
    have a: "\<forall>k<nat (c + 1). cmp k > 0"
    proof (intro allI impI)
      fix k assume "k < nat (c + 1)"
      then have "0 \<le> int k \<and> int k \<le> c" by linarith
      then show "cmp k > 0" using gt(2) by (metis nat_int)
    qed
    have b: "\<forall>k. nat (c + 1) \<le> k \<and> k < n \<longrightarrow> cmp k < 0"
    proof (intro allI impI)
      fix k assume "nat (c + 1) \<le> k \<and> k < n"
      then have "c < int k \<and> int k < int n" by linarith
      then show "cmp k < 0" using gt(3) by (metis nat_int)
    qed
    have "\<not> (\<exists>i<n. cmp i = 0)"
    proof
      assume "\<exists>i<n. cmp i = 0"
      then obtain i where i: "i < n" "cmp i = 0" by blast
      show False
      proof (cases "i < nat (c + 1)")
        case True
        then have "cmp i > 0" using a by blast
        then show False using i by simp
      next
        case False
        then have "nat (c + 1) \<le> i \<and> i < n" using i by simp
        then have "cmp i < 0" using b by blast
        then show False using i by simp
      qed
    qed
    moreover have "nat (c + 1) \<le> n" using c by linarith
    ultimately show ?thesis using res a b by (intro exI[of _ "nat (c + 1)"]) auto
  next
    case lt
    have res: "searchBinary (int n) ?f = Some (Some (int (nat c)))" using sl lt(1) c by (simp add: searchBinary_def)
    have a: "\<forall>k<nat c. cmp k > 0"
    proof (intro allI impI)
      fix k assume "k < nat c"
      then have "0 \<le> int k \<and> int k < c" by linarith
      then show "cmp k > 0" using lt(2) by (metis nat_int)
    qed
    have b: "\<forall>k. nat c \<le> k \<and> k < n \<longrightarrow> cmp k < 0"
    proof (intro allI impI)
      fix k assume "nat c \<le> k \<and> k < n"
      then have "c \<le> int k \<and> int k < int n" by linarith
      then show "cmp k < 0" using lt(3) by (metis nat_int)
    qed
    have "\<not> (\<exists>i<n. cmp i = 0)"
    proof
      assume "\<exists>i<n. cmp i = 0"
      then obtain i where i: "i < n" "cmp i = 0" by blast
      show False
      proof (cases "i < nat c")
        case True
        then have "cmp i > 0" using a by blast
        then show False using i by simp
      next
        case False
        then have "nat c \<le> i \<and> i < n" using i by simp
        then have "cmp i < 0" using b by blast
        then show False using i by simp
      qed
    qed
    moreover have "nat c \<le> n" using c by linarith
    ultimately show ?thesis using res a b by (intro exI[of _ "nat c"]) auto
  qed
qed


lemma searchIndex_zero: "searchIndex 0 cmp = Inr None"
  by (simp add: searchIndex_def searchBinary_zero)

lemma searchIndex_spec:
  assumes "cmpSorted n cmp" and "0 < n" and "n \<le> 1073741824"
  shows "\<exists>r. searchIndex n cmp = Inr (Some r) \<and> r \<le> n \<and>
           (if \<exists>i<n. cmp i = 0 then r < n \<and> cmp r = 0
            else (\<forall>i<r. cmp i > 0) \<and> (\<forall>i. r \<le> i \<and> i < n \<longrightarrow> cmp i < 0))"
proof -
  obtain r where r: "searchBinary (int n) (\<lambda>i. cmp (nat i)) = Some (Some (int r))" "r \<le> n"
      "if \<exists>i<n. cmp i = 0 then r < n \<and> cmp r = 0
       else (\<forall>i<r. cmp i > 0) \<and> (\<forall>i. r \<le> i \<and> i < n \<longrightarrow> cmp i < 0)"
    using searchBinary_spec[OF assms] by blast
  have "searchIndex n cmp = Inr (Some r)" using r(1) assms(3) by (simp add: searchIndex_def)
  then show ?thesis using r(2,3) by blast
qed

subsection \<open>interleaveArrays\<close>

lemma interleaveInner_spec:
  assumes "k \<le> length B" and "i + (length B - k) \<le> length dest" and "j \<le> length A"
  shows "\<exists>m. k + m \<le> length B \<and>
           interleaveInner dest A B fn i j k =
             (take i dest @ take m (drop k B) @ drop (i + m) dest, i + m, k + m) \<and>
           imerge fn A B j k = take m (drop k B) @ imerge fn A B j (k + m) \<and>
           \<not> (k + m < length B \<and> (j = length A \<or> fn j (k + m) < 0))"
  using assms
proof (induction dest A B fn i j k rule: interleaveInner.induct)
  case (1 dest src1 src2 fn i j k)
  show ?case
  proof (cases "k < length src2 \<and> (j = length src1 \<or> fn j k < 0)")
    case False
    have "interleaveInner dest src1 src2 fn i j k = (dest, i, k)"
      by (subst interleaveInner.simps) (simp only: False if_False simp_thms)
    then show ?thesis using False "1.prems" by (intro exI[of _ 0]) simp
  next
    case True
    have step: "interleaveInner dest src1 src2 fn i j k =
                interleaveInner (dest[i := src2 ! k]) src1 src2 fn (i + 1) j (k + 1)"
      by (subst interleaveInner.simps) (simp only: True if_True simp_thms)
    have kl: "k < length src2" using True by simp
    have p1: "k + 1 \<le> length src2" using True by simp
    have p2: "i + 1 + (length src2 - (k + 1)) \<le> length (dest[i := src2 ! k])"
      using kl "1.prems"(2) by (simp only: length_list_update)
    obtain m where m: "k + 1 + m \<le> length src2"
      and r: "interleaveInner (dest[i := src2 ! k]) src1 src2 fn (i + 1) j (k + 1) =
                (take (i + 1) (dest[i := src2 ! k]) @ take m (drop (k + 1) src2) @
                   drop (i + 1 + m) (dest[i := src2 ! k]), i + 1 + m, k + 1 + m)"
      and mg: "imerge fn src1 src2 j (k + 1) = take m (drop (k + 1) src2) @ imerge fn src1 src2 j (k + 1 + m)"
      and stop: "\<not> (k + 1 + m < length src2 \<and> (j = length src1 \<or> fn j (k + 1 + m) < 0))"
      using "1.IH"[OF True p1 p2 "1.prems"(3)] by blast
    have il: "i < length dest" using kl "1.prems"(2) by linarith
    have t1: "take (i + 1) (dest[i := src2 ! k]) = take i dest @ [src2 ! k]"
      using il by (simp add: take_Suc_conv_app_nth)
    have t2: "take (Suc m) (drop k src2) = src2 ! k # take m (drop (k + 1) src2)"
      using kl by (simp add: Cons_nth_drop_Suc[symmetric])
    have t3: "drop (i + 1 + m) (dest[i := src2 ! k]) = drop (i + Suc m) dest"
      by simp
    have m0: "imerge fn src1 src2 j k = src2 ! k # imerge fn src1 src2 j (k + 1)"
      using True "1.prems"(3) by (subst imerge.simps) auto
    have e: "k + 1 + m = k + Suc m" "i + 1 + m = i + Suc m" by simp_all
    show ?thesis
    proof (intro exI[of _ "Suc m"] conjI)
      show "k + Suc m \<le> length src2" using m by simp
      show "interleaveInner dest src1 src2 fn i j k =
            (take i dest @ take (Suc m) (drop k src2) @ drop (i + Suc m) dest, i + Suc m, k + Suc m)"
        unfolding step r t1 t2 t3 e by simp
      show "imerge fn src1 src2 j k = take (Suc m) (drop k src2) @ imerge fn src1 src2 j (k + Suc m)"
        unfolding m0 mg t2 e by simp
      show "\<not> (k + Suc m < length src2 \<and> (j = length src1 \<or> fn j (k + Suc m) < 0))"
        using stop unfolding e .
    qed
  qed
qed


lemma imerge_done: "length A \<le> j \<Longrightarrow> length B \<le> k \<Longrightarrow> imerge fn A B j k = []"
  by (subst imerge.simps) simp

lemma interleaveOuter_spec:
  assumes "j \<le> length A" and "k \<le> length B" and "i = j + k" and "length A + length B \<le> length dest"
  shows "interleaveOuter dest A B fn i j k =
           Some (take i dest @ imerge fn A B j k @ drop (length A + length B) dest)"
  using assms
proof (induction "(length A - j) + (length B - k)" arbitrary: dest i j k rule: less_induct)
  case less
  let ?n = "length A + length B"
  show ?case
  proof (cases "i < ?n")
    case False
    then have jk: "j = length A" "k = length B" using less.prems by simp_all
    have "interleaveOuter dest A B fn i j k = Some dest"
      by (subst interleaveOuter.simps) (simp only: False if_False)
    moreover have "take i dest @ imerge fn A B j k @ drop ?n dest = dest"
      using jk less.prems(3) by (simp add: imerge_done)
    ultimately show ?thesis by simp
  next
    case True
    have room: "i + (length B - k) \<le> length dest" using less.prems by simp
    obtain m where m: "k + m \<le> length B"
      and r: "interleaveInner dest A B fn i j k =
                (take i dest @ take m (drop k B) @ drop (i + m) dest, i + m, k + m)"
      and mg: "imerge fn A B j k = take m (drop k B) @ imerge fn A B j (k + m)"
      and stop: "\<not> (k + m < length B \<and> (j = length A \<or> fn j (k + m) < 0))"
      using interleaveInner_spec[OF less.prems(2) room less.prems(1), of fn] by blast
    define dest' where "dest' = take i dest @ take m (drop k B) @ drop (i + m) dest"
    have lm: "length (take m (drop k B)) = m" using m by simp
    have li: "length (take i dest) = i" using less.prems by simp
    have ld: "length dest' = length dest" unfolding dest'_def using m less.prems by simp
    have tk: "take (i + m) dest' = take i dest @ take m (drop k B)"
      unfolding dest'_def using lm li by simp
    show ?thesis
    proof (cases "j < length A")
      case jlt: True
      have step: "interleaveOuter dest A B fn i j k =
                  interleaveOuter (dest'[i + m := A ! j]) A B fn (i + m + 1) (j + 1) (k + m)"
        by (subst interleaveOuter.simps) (simp only: True if_True r prod.case jlt dest'_def)
      have im: "i + m < length dest'" using ld less.prems m jlt by simp
      have meas: "(length A - (j + 1)) + (length B - (k + m)) < (length A - j) + (length B - k)"
        using jlt m by simp
      have ih: "interleaveOuter (dest'[i + m := A ! j]) A B fn (i + m + 1) (j + 1) (k + m) =
                  Some (take (i + m + 1) (dest'[i + m := A ! j]) @ imerge fn A B (j + 1) (k + m) @
                        drop ?n (dest'[i + m := A ! j]))"
        using less.hyps[OF meas, of "i + m + 1" "dest'[i + m := A ! j]"] jlt m less.prems ld by simp
      have t1: "take (i + m + 1) (dest'[i + m := A ! j]) = take i dest @ take m (drop k B) @ [A ! j]"
        using im tk by (simp add: take_Suc_conv_app_nth)
      have t2: "drop ?n (dest'[i + m := A ! j]) = drop ?n dest"
      proof -
        have "i + m < ?n" using less.prems m jlt by simp
        then have "drop ?n (dest'[i + m := A ! j]) = drop ?n dest'" by simp
        also have "\<dots> = drop (?n - (i + m)) (drop (i + m) dest')" using \<open>i + m < ?n\<close> by simp
        also have "drop (i + m) dest' = drop (i + m) dest"
          unfolding dest'_def using lm li by simp
        also have "drop (?n - (i + m)) (drop (i + m) dest) = drop ?n dest" using \<open>i + m < ?n\<close> by simp
        finally show ?thesis .
      qed
      have m1: "imerge fn A B j (k + m) = A ! j # imerge fn A B (j + 1) (k + m)"
        using stop jlt by (subst imerge.simps) auto
      show ?thesis unfolding step ih t1 t2 mg m1 by simp
    next
      case jge: False
      then have jA: "j = length A" using less.prems(1) by simp
      then have km: "k + m = length B" using stop m by simp
      then have im: "\<not> i + m < ?n" using jA less.prems(3) by simp
      have step: "interleaveOuter dest A B fn i j k = interleaveOuter dest' A B fn (i + m) j (k + m)"
        by (subst interleaveOuter.simps) (simp only: True if_True r prod.case jge if_False dest'_def)
      have fin: "interleaveOuter dest' A B fn (i + m) j (k + m) = Some dest'"
        by (subst interleaveOuter.simps) (simp only: im if_False)
      have e1: "imerge fn A B j (k + m) = []" using jA km by (simp add: imerge_done)
      have "i + m = ?n" using jA km less.prems(3) by simp
      then have e2: "drop (i + m) dest = drop ?n dest" by simp
      have "dest' = take i dest @ imerge fn A B j k @ drop ?n dest"
        unfolding dest'_def mg e1 e2 by simp
      then show ?thesis using step fin by simp
    qed
  qed
qed

lemma interleaveArrays_imerge:
  "length A + length B \<le> length dest \<Longrightarrow>
   interleaveArrays dest A B fn = Some (imerge fn A B 0 0 @ drop (length A + length B) dest)"
  using interleaveOuter_spec[of 0 A 0 B 0 dest fn] by (simp add: interleaveArrays_def)


lemma sorted_drop_ge:
  assumes "sorted (map key A)" and "j < length A" and "x \<in> set (drop j A)"
  shows "key (A ! j) \<le> key x"
proof -
  obtain n where n: "n < length (drop j A)" "x = drop j A ! n"
    using assms(3) by (auto simp: in_set_conv_nth)
  then have "x = A ! (j + n)" "j + n < length A" using assms(2) by simp_all
  moreover have "map key A ! j \<le> map key A ! (j + n)"
    using assms(1) calculation(2) by (intro sorted_nth_mono) simp_all
  ultimately show ?thesis using assms(2) by simp
qed

lemma mset_imerge: "mset (imerge fn A B j k) = mset (drop j A) + mset (drop k B)"
proof (induction fn A B j k rule: imerge.induct)
  case (1 fn A B j k)
  show ?case
  proof (cases "k < length B \<and> (j \<ge> length A \<or> fn j k < 0)")
    case True
    then have "imerge fn A B j k = B ! k # imerge fn A B j (k + 1)"
      by (subst imerge.simps) simp
    moreover have "drop k B = B ! k # drop (k + 1) B" using True by (simp add: Cons_nth_drop_Suc)
    ultimately show ?thesis using "1.IH"(1)[OF True] by simp
  next
    case False
    show ?thesis
    proof (cases "j < length A")
      case jlt: True
      have "imerge fn A B j k = A ! j # imerge fn A B (j + 1) k"
        using False jlt by (subst imerge.simps) auto
      moreover have "drop j A = A ! j # drop (j + 1) A" using jlt by (simp add: Cons_nth_drop_Suc)
      ultimately show ?thesis using "1.IH"(2)[OF False jlt] by simp
    next
      case jge: False
      then have "k \<ge> length B" using False by auto
      then show ?thesis using jge by (simp add: imerge_done)
    qed
  qed
qed

lemma set_imerge: "set (imerge fn A B j k) = set (drop j A) \<union> set (drop k B)"
  using mset_imerge[of fn A B j k] by (metis set_mset_mset set_mset_union)

lemma sorted_imerge:
  assumes "sorted (map key A)" and "sorted (map key B)"
    and "\<forall>j<length A. \<forall>k<length B. (fn j k < 0) = (key (B ! k) < key (A ! j))"
  shows "sorted (map key (imerge fn A B j k))"
  using assms
proof (induction fn A B j k rule: imerge.induct)
  case (1 fn A B j k)
  note ord = "1.prems"(3)
  show ?case
  proof (cases "k < length B \<and> (j \<ge> length A \<or> fn j k < 0)")
    case True
    have eq: "imerge fn A B j k = B ! k # imerge fn A B j (k + 1)"
      using True by (subst imerge.simps) simp
    have "key (B ! k) \<le> key x" if x: "x \<in> set (imerge fn A B j (k + 1))" for x
    proof -
      from x have "x \<in> set (drop j A) \<or> x \<in> set (drop (k + 1) B)" by (simp add: set_imerge)
      then show ?thesis
      proof
        assume xa: "x \<in> set (drop j A)"
        then have jlt: "j < length A" by (cases "j < length A") auto
        then have "fn j k < 0" using True by auto
        then have "key (B ! k) < key (A ! j)" using ord jlt True by blast
        moreover have "key (A ! j) \<le> key x" using sorted_drop_ge[OF "1.prems"(1) jlt xa] .
        ultimately show ?thesis by simp
      next
        assume "x \<in> set (drop (k + 1) B)"
        then have "x \<in> set (drop k B)" using set_drop_subset_set_drop[of k "k + 1" B] by auto
        then show ?thesis using sorted_drop_ge[OF "1.prems"(2)] True by blast
      qed
    qed
    then show ?thesis unfolding eq using "1.IH"(1)[OF True "1.prems"] by simp
  next
    case False
    show ?thesis
    proof (cases "j < length A")
      case jlt: True
      have eq: "imerge fn A B j k = A ! j # imerge fn A B (j + 1) k"
        using False jlt by (subst imerge.simps) auto
      have "key (A ! j) \<le> key x" if x: "x \<in> set (imerge fn A B (j + 1) k)" for x
      proof -
        from x have "x \<in> set (drop (j + 1) A) \<or> x \<in> set (drop k B)" by (simp add: set_imerge)
        then show ?thesis
        proof
          assume "x \<in> set (drop (j + 1) A)"
          then have "x \<in> set (drop j A)" using set_drop_subset_set_drop[of j "j + 1" A] by auto
          then show ?thesis using sorted_drop_ge[OF "1.prems"(1) jlt] by blast
        next
          assume xb: "x \<in> set (drop k B)"
          then have klt: "k < length B" by (cases "k < length B") auto
          then have "\<not> fn j k < 0" using False by auto
          then have "key (A ! j) \<le> key (B ! k)" using ord jlt klt by auto
          moreover have "key (B ! k) \<le> key x" using sorted_drop_ge[OF "1.prems"(2) klt xb] .
          ultimately show ?thesis by simp
        qed
      qed
      then show ?thesis unfolding eq using "1.IH"(2)[OF False jlt "1.prems"] by simp
    next
      case jge: False
      then have "k \<ge> length B" using False by auto
      then show ?thesis using jge by (simp add: imerge_done)
    qed
  qed
qed


lemma stable_imerge:
  assumes "sorted (map key A)"
    and "\<forall>j<length A. \<forall>k<length B. (fn j k < 0) = (key (B ! k) < key (A ! j))"
  shows "filter (\<lambda>x. key x = v) (imerge fn A B j k) =
           filter (\<lambda>x. key x = v) (drop j A) @ filter (\<lambda>x. key x = v) (drop k B)"
  using assms
proof (induction fn A B j k rule: imerge.induct)
  case (1 fn A B j k)
  note ord = "1.prems"(2)
  show ?case
  proof (cases "k < length B \<and> (j \<ge> length A \<or> fn j k < 0)")
    case True
    have eq: "imerge fn A B j k = B ! k # imerge fn A B j (k + 1)"
      using True by (subst imerge.simps) simp
    have dk: "drop k B = B ! k # drop (k + 1) B" using True by (simp add: Cons_nth_drop_Suc)
    have ih: "filter (\<lambda>x. key x = v) (imerge fn A B j (k + 1)) =
              filter (\<lambda>x. key x = v) (drop j A) @ filter (\<lambda>x. key x = v) (drop (k + 1) B)"
      using "1.IH"(1)[OF True "1.prems"] .
    show ?thesis
    proof (cases "key (B ! k) = v")
      case False
      then show ?thesis unfolding eq dk using ih by simp
    next
      case kv: True
      have "key x \<noteq> v" if xa: "x \<in> set (drop j A)" for x
      proof -
        from xa have jlt: "j < length A" by (cases "j < length A") auto
        then have "fn j k < 0" using True by auto
        then have "key (B ! k) < key (A ! j)" using ord jlt True by blast
        moreover have "key (A ! j) \<le> key x" using sorted_drop_ge[OF "1.prems"(1) jlt xa] .
        ultimately show ?thesis using kv by auto
      qed
      then have "filter (\<lambda>x. key x = v) (drop j A) = []" by (simp add: filter_empty_conv)
      then show ?thesis unfolding eq dk using ih kv by simp
    qed
  next
    case False
    show ?thesis
    proof (cases "j < length A")
      case jlt: True
      have eq: "imerge fn A B j k = A ! j # imerge fn A B (j + 1) k"
        using False jlt by (subst imerge.simps) auto
      have dj: "drop j A = A ! j # drop (j + 1) A" using jlt by (simp add: Cons_nth_drop_Suc)
      show ?thesis unfolding eq dj using "1.IH"(2)[OF False jlt "1.prems"] by simp
    next
      case jge: False
      then have "k \<ge> length B" using False by auto
      then show ?thesis using jge by (simp add: imerge_done)
    qed
  qed
qed

lemma length_imerge: "length (imerge fn A B j k) = (length A - j) + (length B - k)"
  using mset_imerge[of fn A B j k] by (metis length_drop size_mset size_union)


subsection \<open>Claims on the utilities\<close>

text \<open>
  C6, as the specification states it: without an exact match the search returns the
  first position whose comparator value is \<open>\<ge> 0\<close>, clamped into \<open>[0, n - 1]\<close>. On one
  element that the probe is greater than, \<^verbatim>\<open>searchBinary\<close> returns 1, which is \<open>n\<close>: the
  result is not clamped, and it is not the first position with a value \<open>\<ge> 0\<close> either.
\<close>

theorem searchBinary_not_clamped:
  "cmpSorted 1 alwaysGreater \<and>
   searchBinary 1 (\<lambda>i. alwaysGreater (nat i)) = Some (Some 1) \<and>
   claimedInsertionPoint 1 alwaysGreater = 0 \<and> \<not> (1::int) \<le> 1 - 1"
  by (simp add: cmpSorted_def searchBinary_def searchLoop.simps alwaysGreater_def
      claimedInsertionPoint_def shiftRight1_def toInt32_def)

text \<open>
  C6, amended: over sorted positions (positive values first, negative values last) and
  for a length \<open>n\<close> of at most \<open>2^30\<close> (where the 32-bit shift that halves the interval
  is exact), \<^verbatim>\<open>searchBinary\<close> returns: \<^verbatim>\<open>undefined\<close> for length 0, and for \<open>n > 0\<close> a
  position in \<open>[0, n]\<close>, which is the position of an exact match when one exists, and
  otherwise the insertion point: every position before it has a positive value and every
  position from it on a negative one (so it is \<open>n\<close> when no value is negative). The
  comparator is probed at positions of \<open>[0, n)\<close> only, so it is given on those.
\<close>

theorem searchBinary_correct:
  assumes "cmpSorted n cmp" and "n \<le> 2 ^ 30"
  shows "(n = 0 \<longrightarrow> searchBinary (int n) (\<lambda>i. cmp (nat i)) = Some None) \<and>
         (0 < n \<longrightarrow>
            (\<exists>r. searchBinary (int n) (\<lambda>i. cmp (nat i)) = Some (Some (int r)) \<and> r \<le> n \<and>
                 (if \<exists>i<n. cmp i = 0 then r < n \<and> cmp r = 0
                  else (\<forall>i<r. cmp i > 0) \<and> (\<forall>i. r \<le> i \<and> i < n \<longrightarrow> cmp i < 0))))"
proof (intro conjI impI)
  assume "n = 0"
  then show "searchBinary (int n) (\<lambda>i. cmp (nat i)) = Some None" by (simp add: searchBinary_zero)
next
  assume "0 < n"
  moreover have "n \<le> 1073741824" using assms(2) by simp
  ultimately show "\<exists>r. searchBinary (int n) (\<lambda>i. cmp (nat i)) = Some (Some (int r)) \<and> r \<le> n \<and>
                 (if \<exists>i<n. cmp i = 0 then r < n \<and> cmp r = 0
                  else (\<forall>i<r. cmp i > 0) \<and> (\<forall>i. r \<le> i \<and> i < n \<longrightarrow> cmp i < 0))"
    using searchBinary_spec[OF assms(1)] by blast
qed

theorem searchBinary_correct_witness:
  "cmpSorted 3 oneMatch \<and> (3::nat) \<le> 2 ^ 30 \<and>
   (\<exists>r. searchBinary 3 (\<lambda>i. oneMatch (nat i)) = Some (Some (int r)) \<and> r < 3 \<and> oneMatch r = 0)"
proof -
  have s: "cmpSorted 3 oneMatch" by (auto simp: cmpSorted_def oneMatch_def)
  have e: "\<exists>i<3. oneMatch i = 0" by (intro exI[of _ 1]) (simp add: oneMatch_def)
  have b: "(3::nat) \<le> 2 ^ 30" by simp
  obtain r where "searchBinary (int 3) (\<lambda>i. oneMatch (nat i)) = Some (Some (int r))"
    and "if \<exists>i<3. oneMatch i = 0 then r < 3 \<and> oneMatch r = 0
         else (\<forall>i<r. oneMatch i > 0) \<and> (\<forall>i. r \<le> i \<and> i < 3 \<longrightarrow> oneMatch i < 0)"
    using searchBinary_correct[OF s b] by auto
  then show ?thesis using s e b by (simp only: if_True) auto
qed

text \<open>
  C7, as the specification states it: an element of \<open>B\<close> that the comparator finds equal
  to an element of \<open>A\<close> is placed before it. With \<open>A = [1]\<close>, \<open>B = [2]\<close> and a comparator
  that finds them equal, \<^verbatim>\<open>interleaveArrays\<close> writes 1 first.
\<close>

theorem interleaveArrays_ties_take_A_first:
  "zeroCompare 0 0 = 0 \<and> interleaveArrays [0, 0] [1] [2] zeroCompare = Some [1, 2] \<and>
   \<not> tiesFirst zeroKey [2] [1] [1, 2]"
proof -
  have "interleaveArrays [0, 0] [1] [2] zeroCompare = Some [1, 2]"
    by (simp add: interleaveArrays_def interleaveOuter.simps interleaveInner.simps zeroCompare_def)
  moreover have "\<not> tiesFirst zeroKey [2] [1] [1, 2]"
    by (simp add: tiesFirst_def zeroKey_def)
  ultimately show ?thesis by (simp add: zeroCompare_def)
qed

text \<open>
  C7, amended: for \<open>A\<close> and \<open>B\<close> ascending by a key, a comparator that is negative exactly
  when the element of \<open>B\<close> is smaller, and a destination that holds at least \<open>a + b\<close>
  elements, \<^verbatim>\<open>interleaveArrays\<close> returns the destination with its first \<open>a + b\<close> places
  filled by the ascending merge of \<open>A\<close> and \<open>B\<close> (the same elements, in ascending order)
  and the rest untouched; the merge is stable, and among elements of equal key those of
  \<open>A\<close> are placed before those of \<open>B\<close>.
\<close>

theorem interleaveArrays_stable_merge:
  fixes key :: "int \<Rightarrow> 'k::linorder"
  assumes "sorted (map key A)" and "sorted (map key B)"
    and "\<forall>j<length A. \<forall>k<length B. (fn j k < 0) = (key (B ! k) < key (A ! j))"
    and "length A + length B \<le> length dest"
  shows "\<exists>out. interleaveArrays dest A B fn = Some out \<and> length out = length dest \<and>
           sorted (map key (take (length A + length B) out)) \<and>
           mset (take (length A + length B) out) = mset A + mset B \<and>
           tiesFirst key A B (take (length A + length B) out) \<and>
           drop (length A + length B) out = drop (length A + length B) dest"
proof -
  let ?n = "length A + length B"
  let ?m = "imerge fn A B 0 0"
  have out: "interleaveArrays dest A B fn = Some (?m @ drop ?n dest)"
    using interleaveArrays_imerge[OF assms(4)] .
  have len: "length ?m = ?n" by (simp add: length_imerge)
  have tk: "take ?n (?m @ drop ?n dest) = ?m" using len by simp
  have dr: "drop ?n (?m @ drop ?n dest) = drop ?n dest" using len by simp
  have ln: "length (?m @ drop ?n dest) = length dest" using len assms(4) by simp
  have srt: "sorted (map key ?m)" using sorted_imerge[OF assms(1,2,3)] .
  have ms: "mset ?m = mset A + mset B" by (simp add: mset_imerge)
  have st: "tiesFirst key A B ?m"
    unfolding tiesFirst_def using stable_imerge[OF assms(1,3), of _ 0 0] by simp
  show ?thesis
    by (intro exI[of _ "?m @ drop ?n dest"] conjI) (simp_all only: out tk dr ln srt ms st)
qed

theorem interleaveArrays_stable_merge_witness:
  "\<exists>out. interleaveArrays [0, 0, 0, 0] [1, 3] [2, 3] (\<lambda>j k. [2, 3] ! k - [1, 3] ! j) = Some out \<and>
         sorted (take 4 out) \<and> mset (take 4 out) = mset [1, 3] + mset [2, 3]"
proof -
  have o: "\<forall>j<length [1, 3::int]. \<forall>k<length [2, 3::int].
             ([2, 3] ! k - [1, 3] ! j < (0::int)) = ([2, 3] ! k < ([1, 3] ! j :: int))"
    by simp
  have s1: "sorted (map (\<lambda>x. x) [1, 3::int])" and s2: "sorted (map (\<lambda>x. x) [2, 3::int])"
    by simp_all
  have l: "length [1, 3::int] + length [2, 3::int] \<le> length [0, 0, 0, 0::int]" by simp
  have n: "length [1, 3::int] + length [2, 3::int] = 4" by simp
  obtain out where a: "interleaveArrays [0, 0, 0, 0] [1, 3] [2, 3] (\<lambda>j k. [2, 3] ! k - [1, 3] ! j) = Some out"
    and b: "sorted (map (\<lambda>x. x) (take (length [1, 3::int] + length [2, 3::int]) out))"
    and c: "mset (take (length [1, 3::int] + length [2, 3::int]) out) = mset [1, 3] + mset [2, 3]"
    using interleaveArrays_stable_merge[OF s1 s2 o l] by blast
  show ?thesis using a b c unfolding n by (intro exI[of _ out]) simp
qed

section \<open>The heap on small inputs\<close>

lemma sortPairs_pairsA: "sortPairs pairsA = pairsA"
  by (simp add: sortPairs_def pairsA_def pairCompare_def)

lemma ScoreHeap_new_pairsA: "ScoreHeap_new pairsA 4 = Some heapA"
proof -
  have l: "length pairsA = 4" by (simp add: pairsA_def)
  have r: "replicate (4 * 3) (- 1 :: int) = [- 1, - 1, - 1, - 1, - 1, - 1, - 1, - 1, - 1, - 1, - 1, - 1]"
    by (simp add: numeral_eq_Suc)
  have np: "new_Partition 0 [5, - 1, - 1, 5, - 1, - 1, 5, - 1, - 1, 5, - 1, - 1]
              (0 # 1 # 2 # 3 # replicate 28 0) (Suc (Suc (Suc (Suc 0)))) =
            (\<lparr>uniform = False, pid = 0, indices = [0, 1, 2, 3] @ replicate 28 0, plen = 4, pmin = 5\<rparr>,
             [5, 0, - 1, 5, 0, - 1, 5, 0, - 1, 5, 0, - 1])"
    by (simp add: new_Partition_def ta_put_def scoreAt_def)
  show ?thesis
    unfolding ScoreHeap_new_def sortPairs_pairsA l r
    apply (subst partitionLoop.simps)
    apply (simp add: pairsA_def partitionLengthFor_def Let_def ta_put_def np)
    apply (subst partitionLoop.simps)
    apply (simp add: heapA_def)
    done
qed

lemma ScoreHeap_next_heapA: "ScoreHeap_next heapA = (Some 3, heapA)"
  by (simp add: ScoreHeap_next_def heapA_def p_next_def Partition_next_def)

lemma ScoreHeap_remove_heapA: "ScoreHeap_remove heapA 3 = Inr (Some 3, heapA')"
  apply (simp add: ScoreHeap_remove_def heapA_def ta_get_def p_remove_def Partition_remove_def scoreAt_def)
  apply (simp add: searchIndex_def searchBinary_def searchLoop.simps shiftRight1_def toInt32_def
      compareTo_def scoreAt_def Let_def thenE_def ta_put_def heapA'_def)
  done

lemma ScoreHeap_next_heapA': "fst (ScoreHeap_next heapA') = Some 2"
  by (simp add: ScoreHeap_next_def heapA'_def p_next_def Partition_next_def)

text \<open>
  C4, as the specification states it: the four equal pairs construct into one uniform
  segment. The constructor makes a chunk uniform only when it has the full partition
  length, which is at least 32; the segment it builds here is a sorted one.
\<close>

theorem scenarioA_segment_is_sorted:
  "map_option (\<lambda>h. map uniform (partitions h)) (ScoreHeap_new pairsA 4) = Some [False]"
  by (simp add: ScoreHeap_new_pairsA heapA_def)

text \<open>
  C4, amended: constructing a heap with capacity 4 from \<open>[(0,5),(1,5),(2,5),(3,5)]\<close>
  produces exactly one segment, a sorted (not uniform) one; on the resulting heap
  \<^verbatim>\<open>next()\<close> returns 3, \<^verbatim>\<open>remove(3)\<close> returns 3, and \<^verbatim>\<open>next()\<close> then returns 2.
\<close>

theorem scenarioA:
  "\<exists>h. ScoreHeap_new pairsA 4 = Some h \<and> length (partitions h) = 1 \<and>
        \<not> uniform (partitions h ! 0) \<and>
        (\<exists>h1. ScoreHeap_next h = (Some 3, h1) \<and>
           (\<exists>h2. ScoreHeap_remove h1 3 = Inr (Some 3, h2) \<and> fst (ScoreHeap_next h2) = Some 2))"
proof (rule exI[of _ heapA], intro conjI)
  show "ScoreHeap_new pairsA 4 = Some heapA" by (rule ScoreHeap_new_pairsA)
  show "length (partitions heapA) = 1" by (simp add: heapA_def)
  show "\<not> uniform (partitions heapA ! 0)" by (simp add: heapA_def)
  show "\<exists>h1. ScoreHeap_next heapA = (Some 3, h1) \<and>
          (\<exists>h2. ScoreHeap_remove h1 3 = Inr (Some 3, h2) \<and> fst (ScoreHeap_next h2) = Some 2)"
    using ScoreHeap_next_heapA ScoreHeap_remove_heapA ScoreHeap_next_heapA' by blast
qed

text \<open>
  C10: for every capacity, constructing a heap from no pairs returns a heap with no
  segments; on it \<^verbatim>\<open>next()\<close> returns absent and leaves the heap as it is, and
  \<^verbatim>\<open>remove\<close> of any identifier returns absent and leaves the heap as it is.
\<close>

theorem ScoreHeap_new_empty:
  "\<exists>h. ScoreHeap_new [] maxLength = Some h \<and> partitions h = [] \<and>
        ScoreHeap_next h = (None, h) \<and>
        (\<forall>index. ScoreHeap_remove h index = Inr (None, h))"
proof -
  let ?h = "\<lparr>lookups = replicate (maxLength * 3) (- 1), partitions = [],
             partitionIds = Map.empty, nextId = 0,
             partitionLength = partitionLengthFor (length ([] :: (int \<times> int) list))\<rparr>"
  have "ScoreHeap_new [] maxLength = Some ?h"
    unfolding ScoreHeap_new_def sortPairs_def by (subst partitionLoop.simps) simp
  moreover have "ScoreHeap_next ?h = (None, ?h)" by (simp add: ScoreHeap_next_def)
  moreover have "\<forall>index. ScoreHeap_remove ?h index = Inr (None, ?h)"
    by (simp add: ScoreHeap_remove_def)
  ultimately show ?thesis by (intro exI[of _ ?h]) simp
qed

lemma ScoreHeap_remove_absent:
  "\<not> present h index \<Longrightarrow> ScoreHeap_remove h index = Inr (None, h)"
  by (auto simp: present_def ScoreHeap_remove_def split: option.splits)

section \<open>A uniform partition in a heap\<close>

lemma sortPairs_pairs32: "sortPairs pairs32 = pairs32"
  by (simp add: sortPairs_def pairs32_def pairCompare_def)

lemma len32: "length pairs32 = 32" by (simp add: pairs32_def)

lemma rep99: "replicate (33 * 3) (- 1 :: int) = [- 1, - 1, - 1, - 1, - 1, - 1, - 1, - 1, - 1, - 1, - 1, - 1, - 1, - 1, - 1, - 1, - 1, - 1, - 1, - 1, - 1, - 1, - 1, - 1, - 1, - 1, - 1, - 1, - 1, - 1, - 1, - 1, - 1, - 1, - 1, - 1, - 1, - 1, - 1, - 1, - 1, - 1, - 1, - 1, - 1, - 1, - 1, - 1, - 1, - 1, - 1, - 1, - 1, - 1, - 1, - 1, - 1, - 1, - 1, - 1, - 1, - 1, - 1, - 1, - 1, - 1, - 1, - 1, - 1, - 1, - 1, - 1, - 1, - 1, - 1, - 1, - 1, - 1, - 1, - 1, - 1, - 1, - 1, - 1, - 1, - 1, - 1, - 1, - 1, - 1, - 1, - 1, - 1, - 1, - 1, - 1, - 1, - 1, - 1]"
  by (simp add: numeral_eq_Suc)

lemma scores32: "foldl (\<lambda>L (index, score). ta_put L (index * 3) score) [- 1, - 1, - 1, - 1, - 1, - 1, - 1, - 1, - 1, - 1, - 1, - 1, - 1, - 1, - 1, - 1, - 1, - 1, - 1, - 1, - 1, - 1, - 1, - 1, - 1, - 1, - 1, - 1, - 1, - 1, - 1, - 1, - 1, - 1, - 1, - 1, - 1, - 1, - 1, - 1, - 1, - 1, - 1, - 1, - 1, - 1, - 1, - 1, - 1, - 1, - 1, - 1, - 1, - 1, - 1, - 1, - 1, - 1, - 1, - 1, - 1, - 1, - 1, - 1, - 1, - 1, - 1, - 1, - 1, - 1, - 1, - 1, - 1, - 1, - 1, - 1, - 1, - 1, - 1, - 1, - 1, - 1, - 1, - 1, - 1, - 1, - 1, - 1, - 1, - 1, - 1, - 1, - 1, - 1, - 1, - 1, - 1, - 1, - 1] pairs32 = [- 1, - 1, - 1, 5, - 1, - 1, 5, - 1, - 1, 5, - 1, - 1, 5, - 1, - 1, 5, - 1, - 1, 5, - 1, - 1, 5, - 1, - 1, 5, - 1, - 1, 5, - 1, - 1, 5, - 1, - 1, 5, - 1, - 1, 5, - 1, - 1, 5, - 1, - 1, 5, - 1, - 1, 5, - 1, - 1, 5, - 1, - 1, 5, - 1, - 1, 5, - 1, - 1, 5, - 1, - 1, 5, - 1, - 1, 5, - 1, - 1, 5, - 1, - 1, 5, - 1, - 1, 5, - 1, - 1, 5, - 1, - 1, 5, - 1, - 1, 5, - 1, - 1, 5, - 1, - 1, 5, - 1, - 1, 5, - 1, - 1, 5, - 1, - 1, 5, - 1, - 1]"
  by (simp add: pairs32_def ta_put_def)

lemma nu32: "n = 32 \<Longrightarrow> new_UniformPartition 0 [- 1, - 1, - 1, 5, - 1, - 1, 5, - 1, - 1, 5, - 1, - 1, 5, - 1, - 1, 5, - 1, - 1, 5, - 1, - 1, 5, - 1, - 1, 5, - 1, - 1, 5, - 1, - 1, 5, - 1, - 1, 5, - 1, - 1, 5, - 1, - 1, 5, - 1, - 1, 5, - 1, - 1, 5, - 1, - 1, 5, - 1, - 1, 5, - 1, - 1, 5, - 1, - 1, 5, - 1, - 1, 5, - 1, - 1, 5, - 1, - 1, 5, - 1, - 1, 5, - 1, - 1, 5, - 1, - 1, 5, - 1, - 1, 5, - 1, - 1, 5, - 1, - 1, 5, - 1, - 1, 5, - 1, - 1, 5, - 1, - 1, 5, - 1, - 1, 5, - 1, - 1] [1, 2, 3, 4, 5, 6, 7, 8, 9, 10, 11, 12, 13, 14, 15, 16, 17, 18, 19, 20, 21, 22, 23, 24, 25, 26, 27, 28, 29, 30, 31, 32] n = (\<lparr>uniform = True, pid = 0, indices = [1, 2, 3, 4, 5, 6, 7, 8, 9, 10, 11, 12, 13, 14, 15, 16, 17, 18, 19, 20, 21, 22, 23, 24, 25, 26, 27, 28, 29, 30, 31, 32], plen = 32, pmin = 5\<rparr>, [- 1, - 1, - 1, 5, 0, 0, 5, 0, 1, 5, 0, 2, 5, 0, 3, 5, 0, 4, 5, 0, 5, 5, 0, 6, 5, 0, 7, 5, 0, 8, 5, 0, 9, 5, 0, 10, 5, 0, 11, 5, 0, 12, 5, 0, 13, 5, 0, 14, 5, 0, 15, 5, 0, 16, 5, 0, 17, 5, 0, 18, 5, 0, 19, 5, 0, 20, 5, 0, 21, 5, 0, 22, 5, 0, 23, 5, 0, 24, 5, 0, 25, 5, 0, 26, 5, 0, 27, 5, 0, 28, 5, 0, 29, 5, 0, 30, 5, 0, 31])"
  by (simp add: new_UniformPartition_def ta_put_def scoreAt_def upt_rec)


lemma ScoreHeap_new_pairs32: "ScoreHeap_new pairs32 33 = Some heap32"
proof -
  have ex: "extendUniform pairs32 32 c L = (32, c, L)" for c L
    by (subst extendUniform.simps) (simp add: len32)
  have tk: "take 32 pairs32 = pairs32" using len32 by simp
  have mp: "map fst pairs32 = [1, 2, 3, 4, 5, 6, 7, 8, 9, 10, 11, 12, 13, 14, 15, 16, 17, 18, 19, 20, 21, 22, 23, 24, 25, 26, 27, 28, 29, 30, 31, 32]" by (simp add: pairs32_def)
  have un: "snd (pairs32 ! 31) = snd (pairs32 ! 0)" by (simp add: pairs32_def)
  show ?thesis
    unfolding ScoreHeap_new_def sortPairs_pairs32 len32 rep99
    apply (subst partitionLoop.simps)
    apply (simp add: len32 partitionLengthFor_def Let_def tk scores32 mp un ex nu32)
    apply (subst partitionLoop.simps)
    apply (simp add: len32 heap32_def)
    done
qed

lemma rep32: "(replicate 32 (0::int))[0 := 0] = 0 # replicate 31 0"
  by (simp add: numeral_eq_Suc)

lemma ScoreHeap_update_heap32: "ScoreHeap_update heap32 0 5 = Inr heap32'"
  apply (simp add: ScoreHeap_update_def heap32_def ta_get_def ScoreHeap_reinsert_def ta_put_def)
  apply (simp add: ScoreHeap_place_def searchIndex_def searchBinary_def searchLoop.simps shiftRight1_def toInt32_def routeCompare_def Let_def
      p_insert_def UniformPartition_insert_def thenE_def setPartition_def ta_put_def heap32'_def pmax_def rep32)
  done

lemma ScoreHeap_next_heap32': "ScoreHeap_next heap32' = (Some 0, heap32')"
  by (simp add: ScoreHeap_next_def heap32'_def p_next_def UniformPartition_next_def)


declare skipTombstones.simps [simp del]






text \<open>
  C1, as the specification states it: among the identifiers of maximum score,
  \<^verbatim>\<open>next()\<close> returns the largest. In the heap built from the identifiers 1 to 32 with
  score 5, after \<^verbatim>\<open>update(0, 5)\<close> the identifiers 0 and 32 are both present with score 5
  and \<^verbatim>\<open>next()\<close> returns 0.
\<close>

theorem ScoreHeap_next_tie_not_largest:
  "ScoreHeap_new pairs32 33 = Some heap32 \<and> ScoreHeap_update heap32 0 5 = Inr heap32' \<and>
   fst (ScoreHeap_next heap32') = Some 0 \<and> present heap32' 32 \<and>
   scoreAt (lookups heap32') 32 = scoreAt (lookups heap32') 0 \<and> (0::int) < 32"
proof -
  have "present heap32' 32" by (simp add: present_def heap32'_def ta_get_def)
  moreover have "scoreAt (lookups heap32') 32 = scoreAt (lookups heap32') 0"
    by (simp add: heap32'_def scoreAt_def)
  ultimately show ?thesis
    using ScoreHeap_new_pairs32 ScoreHeap_update_heap32 ScoreHeap_next_heap32' by simp
qed

end
